theory Spec2Isabelle
  imports Main
begin

section \<open>Data model of \<open>src/App.tsx\<close>\<close>

text \<open>
  The interface \<open>ImageResult\<close> (lines 5-11). The fields \<open>id\<close> and \<open>image\<close> carry a
  suffix because HOL already has constants of these names. \<open>None\<close> stands for the
  JavaScript \<open>null\<close> (and for an absent, \<open>undefined\<close> field of a response).
\<close>

record ImageResult =
  id_img :: string
  image_img :: string
  prediction :: "string option"
  error :: "string option"
  isLoading :: bool

text \<open>
  What the platform answers for one selected \<open>File\<close>: the URL returned by
  \<open>URL.createObjectURL(file)\<close> and the data URI that the \<open>FileReader\<close> holds in
  \<open>reader.result\<close> when \<open>onloadend\<close> fires.
\<close>

record File =
  objectURL :: string
  dataURL :: string

text \<open>
  \<open>Math.random().toString(36)\<close> is taken as an input: the base-36 rendering of the
  number drawn, for instance \<open>''0.9''\<close> for 0.25 and \<open>''0.r''\<close> for 0.75.
\<close>

type_synonym rand36 = string

text \<open>
  The fields of the service's reply that \<open>processImage\<close> reads from \<open>response.data\<close>
  (lines 32, 37 and 47): \<open>success\<close>, as the truth value the \<open>if\<close> sees, the label
  \<open>prediction\<close> and the message \<open>error\<close>. \<open>await axios.post(...)\<close> either returns such
  a reply or throws.
\<close>

record response_data =
  data_success :: bool
  data_prediction :: "string option"
  data_error :: "string option"

datatype post_result = Threw | Response response_data



datatype js_error = TypeError

section \<open>Identifiers\<close>

text \<open>\<open>s.substring(start)\<close>: the characters from index \<open>start\<close> on, empty past the end.\<close>

definition substring :: "nat \<Rightarrow> string \<Rightarrow> string" where
  "substring start s = drop start s"

text \<open>\<open>Math.random().toString(36).substring(7)\<close> (lines 20 and 73).\<close>

definition random_id :: "rand36 \<Rightarrow> string" where
  "random_id r = substring 7 r"

section \<open>\<open>processImage\<close> (lines 17-65)\<close>

text \<open>\<open>v || d\<close> on an optional string: \<open>null\<close>, \<open>undefined\<close> and \<open>''''\<close> are falsy.\<close>

definition js_or :: "string option \<Rightarrow> string \<Rightarrow> string" where
  "js_or v d = (case v of None \<Rightarrow> d | Some s \<Rightarrow> if s = [] then d else s)"

definition processImage :: "File \<Rightarrow> rand36 \<Rightarrow> post_result \<Rightarrow> ImageResult" where
  "processImage f r post =
     (let ident = random_id r; base64Image = dataURL f in
      case post of
        Response d \<Rightarrow>
          if data_success d then
            \<lparr>id_img = ident, image_img = base64Image,
             prediction = data_prediction d, error = None, isLoading = False\<rparr>
          else
            \<lparr>id_img = ident, image_img = base64Image,
             prediction = None,
             error = Some (js_or (data_error d) ''Failed to process image''),
             isLoading = False\<rparr>
      | Threw \<Rightarrow>
          \<lparr>id_img = ident, image_img = base64Image,
           prediction = None,
           error = Some ''Error connecting to the model server'',
           isLoading = False\<rparr>)"

section \<open>The store operations of \<open>handleImageUpload\<close>, \<open>removeImage\<close>, \<open>handleReset\<close>\<close>

text \<open>The placeholders of lines 72-78, one per file, with the draw made for each.\<close>

definition newImages :: "(File \<times> rand36) list \<Rightarrow> ImageResult list" where
  "newImages picks =
     map (\<lambda>(f, r). \<lparr>id_img = random_id r, image_img = objectURL f,
                     prediction = None, error = None, isLoading = True\<rparr>) picks"

text \<open>\<open>Array.prototype.findIndex\<close>; \<open>None\<close> is the source's \<open>-1\<close>.\<close>

fun findIndex :: "('a \<Rightarrow> bool) \<Rightarrow> 'a list \<Rightarrow> nat option" where
  "findIndex P [] = None"
| "findIndex P (x # xs) = (if P x then Some 0 else map_option Suc (findIndex P xs))"

text \<open>
  The callback of \<open>results.forEach\<close> (lines 88-98) for one \<open>result\<close> and the
  placeholder \<open>newImages[index]\<close>: the index is looked up in \<open>prev\<close>, the write goes to
  \<open>updatedImages\<close>.
\<close>

definition reconcile_result ::
  "ImageResult list \<Rightarrow> ImageResult list \<Rightarrow> ImageResult \<Rightarrow> ImageResult \<Rightarrow> ImageResult list" where
  "reconcile_result prev updatedImages placeholder result =
     (case findIndex (\<lambda>img. id_img img = id_img placeholder) prev of
        None \<Rightarrow> updatedImages
      | Some imageIndex \<Rightarrow>
          updatedImages[imageIndex :=
            (updatedImages ! imageIndex)
              \<lparr>prediction := prediction result, error := error result, isLoading := False\<rparr>])"

text \<open>
  \<open>results.forEach((result, index) => ...)\<close>: the results from \<open>index\<close> on. Reading
  \<open>newImages[index].id\<close> past the end of \<open>newImages\<close> is a \<open>TypeError\<close>.
\<close>

fun forEach_results ::
  "ImageResult list \<Rightarrow> ImageResult list \<Rightarrow> ImageResult list \<Rightarrow> ImageResult list \<Rightarrow> nat
     \<Rightarrow> js_error + ImageResult list" where
  "forEach_results prev news updatedImages [] index = Inr updatedImages"
| "forEach_results prev news updatedImages (result # rest) index =
     (if index < length news
      then forEach_results prev news
             (reconcile_result prev updatedImages (news ! index) result) rest (Suc index)
      else Inl TypeError)"

text \<open>The updater of lines 86-100: \<open>updatedImages\<close> starts as a copy of \<open>prev\<close>.\<close>

definition reconcile ::
  "ImageResult list \<Rightarrow> ImageResult list \<Rightarrow> ImageResult list \<Rightarrow> js_error + ImageResult list" where
  "reconcile prev news results = forEach_results prev news prev results 0"

text \<open>\<open>prev.filter(img => img.id !== id)\<close> (line 104).\<close>

definition removeImage :: "string \<Rightarrow> ImageResult list \<Rightarrow> ImageResult list" where
  "removeImage k prev = filter (\<lambda>img. id_img img \<noteq> k) prev"

section \<open>The component as a transition system\<close>

text \<open>
  One call of \<open>handleImageUpload\<close> that is suspended at \<open>await Promise.all(...)\<close>: its
  \<open>files\<close>, its \<open>newImages\<close> and the promises of \<open>files.map(processImage)\<close>, each
  pending (\<open>None\<close>) or resolved with a result.
\<close>

record batch =
  b_files :: "File list"
  b_newImages :: "ImageResult list"
  b_promises :: "ImageResult option list"

record app =
  images :: "ImageResult list"
  batches :: "batch list"

definition init :: app where
  "init = \<lparr>images = [], batches = []\<rparr>"

text \<open>\<open>Promise.all\<close>: settled only when every promise is, with the values in input order.\<close>

fun promise_all :: "'a option list \<Rightarrow> 'a list option" where
  "promise_all [] = Some []"
| "promise_all (None # ps) = None"
| "promise_all (Some x # ps) = map_option ((#) x) (promise_all ps)"

text \<open>
  The events: the user selects files (each with the draw of line 73); the pipeline of
  file \<open>j\<close> of batch \<open>b\<close> ends, with the draw of line 20 and what \<open>axios.post\<close> did; the
  user removes an item; the user clears the list.
\<close>

datatype event =
    Upload "(File \<times> rand36) list"
  | Settle nat nat rand36 post_result
  | Remove string
  | Reset

fun step :: "event \<Rightarrow> app \<Rightarrow> js_error + app" where
  "step (Upload picks) s =
     (if length picks = 0 then Inr s
      else Inr (s\<lparr>images := images s @ newImages picks,
                   batches := batches s @
                     [\<lparr>b_files = map fst picks, b_newImages = newImages picks,
                       b_promises = replicate (length picks) None\<rparr>]\<rparr>))"
| "step (Settle b j r post) s =
     (if b < length (batches s) \<and> j < length (b_promises (batches s ! b))
         \<and> j < length (b_files (batches s ! b)) \<and> b_promises (batches s ! b) ! j = None
      then
        let bt = batches s ! b;
            ps = (b_promises bt)[j := Some (processImage (b_files bt ! j) r post)];
            s' = s\<lparr>batches := (batches s)[b := bt\<lparr>b_promises := ps\<rparr>]\<rparr>
        in case promise_all ps of
             None \<Rightarrow> Inr s'
           | Some results \<Rightarrow>
               (case reconcile (images s) (b_newImages bt) results of
                  Inl e \<Rightarrow> Inl e
                | Inr updatedImages \<Rightarrow> Inr (s'\<lparr>images := updatedImages\<rparr>))
      else Inr s)"
| "step (Remove k) s = Inr (s\<lparr>images := removeImage k (images s)\<rparr>)"
| "step Reset s = Inr (s\<lparr>images := []\<rparr>)"

fun run :: "app \<Rightarrow> event list \<Rightarrow> js_error + app" where
  "run s [] = Inr s"
| "run s (e # es) = (case step e s of Inl x \<Rightarrow> Inl x | Inr s' \<Rightarrow> run s' es)"

text \<open>Every suspended call holds one promise and one placeholder per file.\<close>

definition wf_batch :: "batch \<Rightarrow> bool" where
  "wf_batch bt \<longleftrightarrow>
     length (b_newImages bt) = length (b_promises bt) \<and>
     length (b_files bt) = length (b_promises bt)"

definition wf_app :: "app \<Rightarrow> bool" where
  "wf_app s \<longleftrightarrow> list_all wf_batch (batches s)"

section \<open>Auxiliary facts about the store operations\<close>

lemma findIndex_None_iff: "findIndex P xs = None \<longleftrightarrow> (\<forall>x\<in>set xs. \<not> P x)"
  by (induction xs) auto

lemma findIndex_SomeD:
  "findIndex P xs = Some i \<Longrightarrow> i < length xs \<and> P (xs ! i) \<and> (\<forall>j<i. \<not> P (xs ! j))"
proof (induction xs arbitrary: i)
  case Nil
  then show ?case by simp
next
  case (Cons x xs)
  show ?case
  proof (cases "P x")
    case True
    with Cons.prems show ?thesis by simp
  next
    case False
    with Cons.prems obtain k where k: "findIndex P xs = Some k" "i = Suc k"
      by auto
    from Cons.IH [OF k(1)] False k(2) show ?thesis
      by (auto simp: less_Suc_eq_0_disj)
  qed
qed

lemma findIndex_first:
  "i < length xs \<Longrightarrow> P (xs ! i) \<Longrightarrow> \<forall>j<i. \<not> P (xs ! j) \<Longrightarrow> findIndex P xs = Some i"
proof (induction xs arbitrary: i)
  case Nil
  then show ?case by simp
next
  case (Cons x xs)
  show ?case
  proof (cases i)
    case 0
    with Cons.prems show ?thesis by simp
  next
    case (Suc k)
    with Cons.prems have "\<not> P x" by auto
    moreover have "findIndex P xs = Some k"
      using Cons.prems Suc by (intro Cons.IH) auto
    ultimately show ?thesis using Suc by simp
  qed
qed

lemma length_reconcile_result [simp]:
  "length (reconcile_result prev upd ph r) = length upd"
  by (simp add: reconcile_result_def split: option.splits)

lemma reconcile_result_absent:
  "id_img ph \<notin> id_img ` set prev \<Longrightarrow> reconcile_result prev upd ph r = upd"
proof -
  assume "id_img ph \<notin> id_img ` set prev"
  then have "findIndex (\<lambda>img. id_img img = id_img ph) prev = None"
    unfolding findIndex_None_iff by (metis imageI)
  then show ?thesis by (simp add: reconcile_result_def)
qed

lemma forEach_results_foldl:
  "index + length results \<le> length news \<Longrightarrow>
   forEach_results prev news upd results index =
     Inr (foldl (\<lambda>u (n, r). reconcile_result prev u n r) upd (zip (drop index news) results))"
proof (induction results arbitrary: upd index)
  case Nil
  then show ?case by simp
next
  case (Cons result rest)
  then have lt: "index < length news" by simp
  then have d: "drop index news = news ! index # drop (Suc index) news"
    by (simp add: Cons_nth_drop_Suc)
  from Cons.prems have "Suc index + length rest \<le> length news" by simp
  from Cons.IH [OF this] lt d show ?case by simp
qed

lemma reconcile_foldl:
  "length results \<le> length news \<Longrightarrow>
   reconcile prev news results =
     Inr (foldl (\<lambda>u (n, r). reconcile_result prev u n r) prev (zip news results))"
  using forEach_results_foldl [of 0 results news prev prev] by (simp add: reconcile_def)

lemma length_foldl_reconcile [simp]:
  "length (foldl (\<lambda>u (n, r). reconcile_result prev u n r) upd pairs) = length upd"
  by (induction pairs arbitrary: upd) auto

lemma foldl_reconcile_absent:
  "\<forall>(n, r)\<in>set pairs. id_img n \<notin> id_img ` set prev \<Longrightarrow>
   foldl (\<lambda>u (n, r). reconcile_result prev u n r) upd pairs = upd"
  by (induction pairs arbitrary: upd) (auto simp: reconcile_result_absent)

lemma reconcile_result_nth:
  "p < length upd \<Longrightarrow>
   reconcile_result prev upd ph r ! p =
     (if findIndex (\<lambda>img. id_img img = id_img ph) prev = Some p
      then (upd ! p)\<lparr>prediction := prediction r, error := error r, isLoading := False\<rparr>
      else upd ! p)"
  by (auto simp: reconcile_result_def split: option.splits)

lemma foldl_reconcile_untouched:
  "p < length upd \<Longrightarrow>
   \<forall>(n, r)\<in>set pairs. findIndex (\<lambda>img. id_img img = id_img n) prev \<noteq> Some p \<Longrightarrow>
   foldl (\<lambda>u (n, r). reconcile_result prev u n r) upd pairs ! p = upd ! p"
  by (induction pairs arbitrary: upd) (auto simp: reconcile_result_nth)

lemma foldl_reconcile_shape:
  "p < length upd \<Longrightarrow>
   foldl (\<lambda>u (n, r). reconcile_result prev u n r) upd pairs ! p = upd ! p \<or>
   (\<exists>r\<in>snd ` set pairs.
      foldl (\<lambda>u (n, r). reconcile_result prev u n r) upd pairs ! p =
        (upd ! p)\<lparr>prediction := prediction r, error := error r, isLoading := False\<rparr>)"
proof (induction pairs arbitrary: upd)
  case Nil
  then show ?case by simp
next
  case (Cons a pairs)
  obtain n r where a: "a = (n, r)" by (cases a)
  let ?u = "reconcile_result prev upd n r"
  have p: "p < length ?u" using Cons.prems by simp
  from Cons.IH [OF p] show ?case
    using Cons.prems by (auto simp: a reconcile_result_nth split: if_splits)
qed

lemma foldl_reconcile_attrib:
  "distinct (map (id_img \<circ> fst) pairs) \<Longrightarrow> (n, r) \<in> set pairs \<Longrightarrow>
   findIndex (\<lambda>img. id_img img = id_img n) prev = Some p \<Longrightarrow> p < length upd \<Longrightarrow>
   foldl (\<lambda>u (n, r). reconcile_result prev u n r) upd pairs ! p =
     (upd ! p)\<lparr>prediction := prediction r, error := error r, isLoading := False\<rparr>"
proof (induction pairs arbitrary: upd)
  case Nil
  then show ?case by simp
next
  case (Cons a pairs)
  obtain n' r' where a: "a = (n', r')" by (cases a)
  let ?u = "reconcile_result prev upd n' r'"
  have p: "p < length ?u" using Cons.prems by simp
  show ?case
  proof (cases "(n, r) \<in> set pairs")
    case True
    with Cons.prems a have ne: "id_img n \<noteq> id_img n'" by force
    have "findIndex (\<lambda>img. id_img img = id_img n') prev \<noteq> Some p"
    proof
      assume "findIndex (\<lambda>img. id_img img = id_img n') prev = Some p"
      from findIndex_SomeD [OF this] findIndex_SomeD [OF Cons.prems(3)] ne
      show False by simp
    qed
    then have "?u ! p = upd ! p"
      using Cons.prems(4) by (simp add: reconcile_result_nth)
    moreover have "foldl (\<lambda>u (n, r). reconcile_result prev u n r) ?u pairs ! p =
      (?u ! p)\<lparr>prediction := prediction r, error := error r, isLoading := False\<rparr>"
      using Cons.prems True p by (intro Cons.IH) auto
    ultimately show ?thesis by (simp add: a)
  next
    case False
    with Cons.prems a have eq: "n' = n" "r' = r" by auto
    have "\<forall>(m, q)\<in>set pairs. findIndex (\<lambda>img. id_img img = id_img m) prev \<noteq> Some p"
    proof (clarify)
      fix m q assume mq: "(m, q) \<in> set pairs"
        and f: "findIndex (\<lambda>img. id_img img = id_img m) prev = Some p"
      from findIndex_SomeD [OF f] findIndex_SomeD [OF Cons.prems(3)]
      have "id_img m = id_img n" by simp
      moreover from Cons.prems(1) a eq mq have "id_img m \<noteq> id_img n" by force
      ultimately show False by simp
    qed
    from foldl_reconcile_untouched [OF p this]
    show ?thesis using Cons.prems by (simp add: a eq reconcile_result_nth)
  qed
qed

lemma promise_all_None_iff: "promise_all ps = None \<longleftrightarrow> None \<in> set ps"
  by (induction ps rule: promise_all.induct) auto

lemma promise_all_Some: "None \<notin> set ps \<Longrightarrow> promise_all ps = Some (map the ps)"
  by (induction ps rule: promise_all.induct) auto

lemma promise_all_length: "promise_all ps = Some rs \<Longrightarrow> length rs = length ps"
  by (induction ps arbitrary: rs rule: promise_all.induct) auto

lemma foldl_reconcile_filter:
  "foldl (\<lambda>u (n, r). reconcile_result prev u n r) upd pairs =
   foldl (\<lambda>u (n, r). reconcile_result prev u n r) upd
     (filter (\<lambda>(n, r). id_img n \<in> id_img ` set prev) pairs)"
  by (induction pairs arbitrary: upd) (auto simp: reconcile_result_absent)

lemma reconcile_total:
  "length results \<le> length news \<Longrightarrow> \<exists>upd. reconcile prev news results = Inr upd"
  by (simp add: reconcile_foldl)

lemma removeImage_length_two:
  assumes "i < j" "j < length prev" "id_img (prev ! i) = k" "id_img (prev ! j) = k"
  shows "length (removeImage k prev) + 2 \<le> length prev"
proof -
  let ?P = "\<lambda>img. id_img img \<noteq> k"
  let ?a = "take (Suc i) prev" and ?b = "drop (Suc i) prev"
  have split: "prev = ?a @ ?b" by simp
  have "prev ! i \<in> set ?a"
    using assms by (simp add: take_Suc_conv_app_nth)
  then have la: "length (filter ?P ?a) < length ?a"
    using assms(3) by (intro length_filter_less) auto
  have "prev ! j = ?b ! (j - Suc i)" using assms by simp
  moreover have "j - Suc i < length ?b" using assms by simp
  ultimately have "prev ! j \<in> set ?b" by (metis nth_mem)
  then have lb: "length (filter ?P ?b) < length ?b"
    using assms(4) by (intro length_filter_less) auto
  have "length (filter ?P prev) = length (filter ?P ?a) + length (filter ?P ?b)"
    by (subst split) (simp only: filter_append length_append)
  moreover have "length prev = length ?a + length ?b"
    by (subst split) (simp only: length_append)
  ultimately show ?thesis using la lb unfolding removeImage_def by linarith
qed

section \<open>Auxiliary facts about the transition system\<close>

lemma forEach_results_InrD:
  "forEach_results prev news upd results index = Inr u \<Longrightarrow>
   u = foldl (\<lambda>u (n, r). reconcile_result prev u n r) upd (zip (drop index news) results)"
proof (induction results arbitrary: upd index)
  case Nil
  then show ?case by simp
next
  case (Cons result rest)
  show ?case
  proof (cases "index < length news")
    case True
    then have d: "drop index news = news ! index # drop (Suc index) news"
      by (simp add: Cons_nth_drop_Suc)
    from Cons.prems True
    have "forEach_results prev news (reconcile_result prev upd (news ! index) result) rest
            (Suc index) = Inr u"
      by simp
    from Cons.IH [OF this] d show ?thesis by simp
  next
    case False
    with Cons.prems show ?thesis by simp
  qed
qed

lemma reconcile_InrD:
  "reconcile prev news results = Inr u \<Longrightarrow>
   u = foldl (\<lambda>u (n, r). reconcile_result prev u n r) prev (zip news results)"
  using forEach_results_InrD [of prev news prev results 0 u] by (simp add: reconcile_def)

lemma map_update_same: "(map f xs)[i := f (xs ! i)] = map f xs"
  by (metis list_update_id map_update)

lemma map_id_reconcile_result [simp]:
  "map id_img (reconcile_result prev upd ph r) = map id_img upd"
  by (simp add: reconcile_result_def map_update map_update_same split: option.splits)

lemma map_image_reconcile_result [simp]:
  "map image_img (reconcile_result prev upd ph r) = map image_img upd"
  by (simp add: reconcile_result_def map_update map_update_same split: option.splits)

lemma promise_all_SomeD: "promise_all ps = Some rs \<Longrightarrow> rs = map the ps"
  by (induction ps arbitrary: rs rule: promise_all.induct) auto

lemma map_id_foldl_reconcile [simp]:
  "map id_img (foldl (\<lambda>u (n, r). reconcile_result prev u n r) upd pairs) = map id_img upd"
  by (induction pairs arbitrary: upd) auto

lemma map_image_foldl_reconcile [simp]:
  "map image_img (foldl (\<lambda>u (n, r). reconcile_result prev u n r) upd pairs) = map image_img upd"
  by (induction pairs arbitrary: upd) auto

lemma step_Settle_cases:
  assumes "step (Settle b j r post) s = Inr s'"
  shows "images s' = images s \<or>
         reconcile (images s) (b_newImages (batches s ! b))
           (map the ((b_promises (batches s ! b))
              [j := Some (processImage (b_files (batches s ! b) ! j) r post)])) = Inr (images s')"
  using assms
  by (auto simp: Let_def dest!: promise_all_SomeD
      split: if_splits option.splits sum.splits)

lemma step_Settle_pending:
  assumes "k < length (b_promises (batches s ! b))" "k \<noteq> j" "b_promises (batches s ! b) ! k = None"
  shows "\<exists>s'. step (Settle b j r post) s = Inr s' \<and> images s' = images s"
proof -
  let ?ps = "(b_promises (batches s ! b))[j := Some (processImage (b_files (batches s ! b) ! j) r post)]"
  have "?ps ! k = None" "k < length ?ps" using assms by simp_all
  then have "None \<in> set ?ps" by (metis nth_mem)
  then have "promise_all ?ps = None" by (simp add: promise_all_None_iff)
  then show ?thesis by (simp add: Let_def)
qed

lemma step_Settle_last:
  assumes "b < length (batches s)" "wf_batch (batches s ! b)"
    "j < length (b_promises (batches s ! b))" "b_promises (batches s ! b) ! j = None"
    "\<forall>k<length (b_promises (batches s ! b)). k \<noteq> j \<longrightarrow> b_promises (batches s ! b) ! k \<noteq> None"
  shows "\<exists>s'. step (Settle b j r post) s = Inr s' \<and>
           batches s' = (batches s)[b := (batches s ! b)\<lparr>b_promises := (b_promises (batches s ! b))
              [j := Some (processImage (b_files (batches s ! b) ! j) r post)]\<rparr>] \<and>
           reconcile (images s) (b_newImages (batches s ! b))
             (map the ((b_promises (batches s ! b))
                [j := Some (processImage (b_files (batches s ! b) ! j) r post)])) = Inr (images s')"
proof -
  let ?bt = "batches s ! b"
  let ?ps = "(b_promises ?bt)[j := Some (processImage (b_files ?bt ! j) r post)]"
  have "None \<notin> set ?ps"
  proof
    assume "None \<in> set ?ps"
    then obtain k where k: "k < length ?ps" "?ps ! k = None"
      by (metis in_set_conv_nth)
    with assms(3,5) show False by (cases "k = j") auto
  qed
  then have pa: "promise_all ?ps = Some (map the ?ps)" by (rule promise_all_Some)
  have "length (map the ?ps) \<le> length (b_newImages ?bt)"
    using assms(2) by (simp add: wf_batch_def)
  from reconcile_total [OF this, of "images s"]
  obtain upd where upd: "reconcile (images s) (b_newImages ?bt) (map the ?ps) = Inr upd" ..
  have jf: "j < length (b_files ?bt)" using assms(2,3) by (simp add: wf_batch_def)
  show ?thesis using assms(1,3,4) jf pa upd by (simp add: Let_def)
qed

lemma step_wf:
  assumes "wf_app s" "step e s = Inr s'"
  shows "wf_app s'"
proof (cases e)
  case (Upload picks)
  with assms show ?thesis
    by (auto simp: wf_app_def wf_batch_def newImages_def split: if_splits)
next
  case (Settle b j r post)
  have *: "list_all wf_batch ((batches s)[b := (batches s ! b)\<lparr>b_promises := (b_promises (batches s ! b))[j := x]\<rparr>])"
    if "b < length (batches s)" for x
  proof -
    have "wf_batch (batches s ! b)" using assms(1) that by (simp add: wf_app_def list_all_length)
    then have "wf_batch ((batches s ! b)\<lparr>b_promises := (b_promises (batches s ! b))[j := x]\<rparr>)"
      by (simp add: wf_batch_def)
    then show ?thesis using assms(1) that
      unfolding wf_app_def list_all_length by (simp add: nth_list_update)
  qed
  from assms Settle show ?thesis
    by (auto simp: Let_def wf_app_def * split: if_splits option.splits sum.splits)
next
  case (Remove k)
  with assms show ?thesis by (auto simp: wf_app_def)
next
  case Reset
  with assms show ?thesis by (auto simp: wf_app_def)
qed

lemma step_total:
  assumes "wf_app s"
  shows "\<exists>s'. step e s = Inr s'"
proof (cases e)
  case (Settle b j r post)
  show ?thesis
  proof (cases "b < length (batches s) \<and> j < length (b_promises (batches s ! b))
         \<and> j < length (b_files (batches s ! b)) \<and> b_promises (batches s ! b) ! j = None")
    case False
    then show ?thesis using Settle by auto
  next
    case True
    let ?ps = "(b_promises (batches s ! b))[j := Some (processImage (b_files (batches s ! b) ! j) r post)]"
    have wfb: "wf_batch (batches s ! b)" using assms True by (simp add: wf_app_def list_all_length)
    show ?thesis
    proof (cases "promise_all ?ps")
      case None
      then show ?thesis using Settle True by (simp add: Let_def)
    next
      case (Some results)
      then have "length results \<le> length (b_newImages (batches s ! b))"
        using wfb by (auto dest: promise_all_length simp: wf_batch_def)
      from reconcile_total [OF this, of "images s"] Some show ?thesis
        using Settle True by (auto simp: Let_def)
    qed
  qed
qed auto

lemma run_total:
  "wf_app s \<Longrightarrow> \<exists>s'. run s es = Inr s' \<and> wf_app s'"
proof (induction es arbitrary: s)
  case Nil
  then show ?case by simp
next
  case (Cons e es)
  from step_total [OF Cons.prems] obtain s1 where s1: "step e s = Inr s1" ..
  from step_wf [OF Cons.prems s1] have "wf_app s1" .
  from Cons.IH [OF this] s1 show ?case by simp
qed

lemma wf_init: "wf_app init"
  by (simp add: wf_app_def init_def)

lemma findIndex_distinct:
  assumes "distinct (map f xs)" "p < length xs"
  shows "findIndex (\<lambda>x. f x = f (xs ! p)) xs = Some p"
proof (rule findIndex_first)
  show "p < length xs" by fact
  show "f (xs ! p) = f (xs ! p)" by simp
  show "\<forall>j<p. f (xs ! j) \<noteq> f (xs ! p)"
  proof (intro allI impI)
    fix j assume "j < p"
    then have "j < length (map f xs)" "p < length (map f xs)" "j \<noteq> p"
      using assms(2) by simp_all
    with assms(1) have "map f xs ! j \<noteq> map f xs ! p"
      by (simp only: nth_eq_iff_index_eq not_False_eq_True)
    with \<open>j < p\<close> assms(2) show "f (xs ! j) \<noteq> f (xs ! p)" by simp
  qed
qed

lemma reconcile_attrib:
  assumes "reconcile prev news results = Inr upd" "length results = length news"
    "distinct (map id_img news)" "i < length news"
    "findIndex (\<lambda>img. id_img img = id_img (news ! i)) prev = Some p"
  shows "upd ! p = (prev ! p)\<lparr>prediction := prediction (results ! i),
                             error := error (results ! i), isLoading := False\<rparr>"
proof -
  have upd: "upd = foldl (\<lambda>u (n, r). reconcile_result prev u n r) prev (zip news results)"
    using assms(1) by (rule reconcile_InrD)
  have d: "distinct (map (id_img \<circ> fst) (zip news results))"
    using assms(2,3) by (simp add: map_fst_zip flip: map_map)
  have m: "(news ! i, results ! i) \<in> set (zip news results)"
    using assms(2,4) by (auto simp: in_set_zip)
  have p: "p < length prev" using findIndex_SomeD [OF assms(5)] by simp
  from foldl_reconcile_attrib [OF d m assms(5) p] upd show ?thesis by simp
qed

lemma reconcile_untouched:
  assumes "reconcile prev news results = Inr upd" "p < length prev"
    "id_img (prev ! p) \<notin> id_img ` set news"
  shows "upd ! p = prev ! p"
proof -
  have upd: "upd = foldl (\<lambda>u (n, r). reconcile_result prev u n r) prev (zip news results)"
    using assms(1) by (rule reconcile_InrD)
  have "\<forall>(n, r)\<in>set (zip news results).
          findIndex (\<lambda>img. id_img img = id_img n) prev \<noteq> Some p"
  proof (clarify)
    fix n r assume nr: "(n, r) \<in> set (zip news results)"
      and f: "findIndex (\<lambda>img. id_img img = id_img n) prev = Some p"
    from nr have "n \<in> set news" by (rule set_zip_leftD)
    moreover from findIndex_SomeD [OF f] have "id_img (prev ! p) = id_img n" by simp
    ultimately show False using assms(3) by (metis imageI)
  qed
  from foldl_reconcile_untouched [OF assms(2) this] upd show ?thesis by simp
qed

lemma reconcile_length:
  "reconcile prev news results = Inr upd \<Longrightarrow> length upd = length prev"
  by (auto dest: reconcile_InrD)

lemma step_Settle_pending_valid:
  assumes "b < length (batches s)" "j < length (b_promises (batches s ! b))"
    "j < length (b_files (batches s ! b))" "b_promises (batches s ! b) ! j = None"
    "k < length (b_promises (batches s ! b))" "k \<noteq> j" "b_promises (batches s ! b) ! k = None"
  shows "step (Settle b j r post) s =
     Inr (s\<lparr>batches := (batches s)[b := (batches s ! b)\<lparr>b_promises := (b_promises (batches s ! b))
              [j := Some (processImage (b_files (batches s ! b) ! j) r post)]\<rparr>]\<rparr>)"
proof -
  let ?ps = "(b_promises (batches s ! b))[j := Some (processImage (b_files (batches s ! b) ! j) r post)]"
  have "?ps ! k = None" "k < length ?ps" using assms by simp_all
  then have "None \<in> set ?ps" by (metis nth_mem)
  then have "promise_all ?ps = None" by (simp add: promise_all_None_iff)
  then show ?thesis using assms(1-4) by (simp add: Let_def)
qed

lemma settle_order:
  assumes "b < length (batches s)" "wf_batch (batches s ! b)" "distinct order" "order \<noteq> []"
    "set order = {j. j < length (b_promises (batches s ! b)) \<and> b_promises (batches s ! b) ! j = None}"
  shows "\<exists>s'. run s (map (\<lambda>j. Settle b j (rnd j) (post j)) order) = Inr s' \<and>
          reconcile (images s) (b_newImages (batches s ! b))
            (map (\<lambda>j. case b_promises (batches s ! b) ! j of
                         None \<Rightarrow> processImage (b_files (batches s ! b) ! j) (rnd j) (post j)
                       | Some x \<Rightarrow> x) [0..<length (b_promises (batches s ! b))]) = Inr (images s')"
  using assms
proof (induction order arbitrary: s)
  case Nil
  then show ?case by simp
next
  case (Cons j rest)
  let ?bt = "batches s ! b"
  let ?n = "length (b_promises ?bt)"
  let ?res = "\<lambda>j. processImage (b_files ?bt ! j) (rnd j) (post j)"
  let ?ps = "(b_promises ?bt)[j := Some (?res j)]"
  let ?final = "\<lambda>ps. map (\<lambda>j. case ps ! j of None \<Rightarrow> ?res j | Some x \<Rightarrow> x) [0..<?n]"
  from Cons.prems(5) have j: "j < ?n" "b_promises ?bt ! j = None" by auto
  from Cons.prems(2) j have jf: "j < length (b_files ?bt)" by (simp add: wf_batch_def)
  have fin: "?final ?ps = ?final (b_promises ?bt)"
    using j by (auto simp: nth_list_update)
  show ?case
  proof (cases "rest = []")
    case True
    with Cons.prems(5) have others: "\<forall>k<?n. k \<noteq> j \<longrightarrow> b_promises ?bt ! k \<noteq> None"
      by (auto simp del: not_None_eq)
    from step_Settle_last [OF Cons.prems(1,2) j others, of "rnd j" "post j"]
    obtain s1 where s1: "step (Settle b j (rnd j) (post j)) s = Inr s1"
      "reconcile (images s) (b_newImages ?bt) (map the ?ps) = Inr (images s1)"
      by blast
    have "map the ?ps = ?final (b_promises ?bt)"
      using others j by (intro nth_equalityI) (auto simp: nth_list_update)
    with s1 True show ?thesis by (simp del: step.simps)
  next
    case False
    then obtain k where k: "k \<in> set rest" by (cases rest) auto
    with Cons.prems(3) have kj: "k \<noteq> j" by auto
    from k Cons.prems(5) have kp: "k < ?n" "b_promises ?bt ! k = None" by auto
    let ?s1 = "s\<lparr>batches := (batches s)[b := ?bt\<lparr>b_promises := ?ps\<rparr>]\<rparr>"
    have s1: "step (Settle b j (rnd j) (post j)) s = Inr ?s1"
      using Cons.prems(1) j(1) jf j(2) kp(1) kj kp(2) by (rule step_Settle_pending_valid)
    have bt1: "batches ?s1 ! b = ?bt\<lparr>b_promises := ?ps\<rparr>"
      using Cons.prems(1) by simp
    have b1: "b < length (batches ?s1)" using Cons.prems(1) by simp
    have wf1: "wf_batch (batches ?s1 ! b)"
      using Cons.prems(2) unfolding bt1 by (simp add: wf_batch_def)
    have d1: "distinct rest" using Cons.prems(3) by simp
    have pend1: "set rest =
        {j. j < length (b_promises (batches ?s1 ! b)) \<and> b_promises (batches ?s1 ! b) ! j = None}"
    proof -
      have "set rest = set (j # rest) - {j}" using Cons.prems(3) by auto
      also have "\<dots> = {k. k < ?n \<and> b_promises ?bt ! k = None} - {j}"
        using Cons.prems(5) by simp
      also have "\<dots> = {k. k < length ?ps \<and> ?ps ! k = None}"
        using j by (auto simp: nth_list_update)
      finally show ?thesis by (simp only: bt1) simp
    qed
    from Cons.IH [OF b1 wf1 d1 False pend1]
    obtain s' where s': "run ?s1 (map (\<lambda>j. Settle b j (rnd j) (post j)) rest) = Inr s'"
      "reconcile (images ?s1) (b_newImages (batches ?s1 ! b))
            (map (\<lambda>j. case b_promises (batches ?s1 ! b) ! j of
                         None \<Rightarrow> processImage (b_files (batches ?s1 ! b) ! j) (rnd j) (post j)
                       | Some x \<Rightarrow> x) [0..<length (b_promises (batches ?s1 ! b))]) = Inr (images s')"
      by blast
    have eqs: "images ?s1 = images s" "b_newImages (batches ?s1 ! b) = b_newImages ?bt"
      "b_files (batches ?s1 ! b) = b_files ?bt" "b_promises (batches ?s1 ! b) = ?ps"
      "length ?ps = ?n"
      unfolding bt1 by simp_all
    from s'(2) have "reconcile (images s) (b_newImages ?bt) (?final ?ps) = Inr (images s')"
      unfolding eqs .
    then have "reconcile (images s) (b_newImages ?bt) (?final (b_promises ?bt)) = Inr (images s')"
      by (simp only: fin)
    moreover have "run s (map (\<lambda>j. Settle b j (rnd j) (post j)) (j # rest)) = Inr s'"
      using s1 s'(1) by (simp del: step.simps)
    ultimately show ?thesis by blast
  qed
qed

lemma foldl_reconcile_patched:
  "p < length upd \<Longrightarrow>
   \<exists>(n, r)\<in>set pairs. findIndex (\<lambda>img. id_img img = id_img n) prev = Some p \<Longrightarrow>
   \<not> isLoading (foldl (\<lambda>u (n, r). reconcile_result prev u n r) upd pairs ! p)"
proof (induction pairs arbitrary: upd)
  case Nil
  then show ?case by simp
next
  case (Cons a pairs)
  obtain n r where a: "a = (n, r)" by (cases a)
  let ?u = "reconcile_result prev upd n r"
  have p: "p < length ?u" using Cons.prems(1) by simp
  show ?case
  proof (cases "\<exists>(n, r)\<in>set pairs. findIndex (\<lambda>img. id_img img = id_img n) prev = Some p")
    case True
    from Cons.IH [OF p True] show ?thesis by (simp add: a)
  next
    case False
    with Cons.prems(2) a have f: "findIndex (\<lambda>img. id_img img = id_img n) prev = Some p"
      by auto
    from False have "\<forall>(n, r)\<in>set pairs. findIndex (\<lambda>img. id_img img = id_img n) prev \<noteq> Some p"
      by auto
    from foldl_reconcile_untouched [OF p this] f Cons.prems(1)
    show ?thesis by (simp add: a reconcile_result_nth)
  qed
qed

lemma reconcile_nth_cases:
  assumes "reconcile prev news results = Inr upd" "p < length prev"
  shows "upd ! p = prev ! p \<or>
     (\<exists>r::ImageResult.
        upd ! p = (prev ! p)\<lparr>prediction := prediction r, error := error r, isLoading := False\<rparr>)"
proof -
  have upd: "upd = foldl (\<lambda>u (n, r). reconcile_result prev u n r) prev (zip news results)"
    using assms(1) by (rule reconcile_InrD)
  from foldl_reconcile_shape [OF assms(2), of prev "zip news results"]
  show ?thesis unfolding upd by blast
qed

lemma step_Settle_nth:
  assumes "step (Settle b j r post) s = Inr s'"
  shows "length (images s') = length (images s) \<and>
     (\<forall>p<length (images s). isLoading (images s' ! p) \<longrightarrow> images s' ! p = images s ! p)"
proof -
  from step_Settle_cases [OF assms] show ?thesis
  proof
    assume "images s' = images s"
    then show ?thesis by simp
  next
    assume rec: "reconcile (images s) (b_newImages (batches s ! b))
           (map the ((b_promises (batches s ! b))
              [j := Some (processImage (b_files (batches s ! b) ! j) r post)])) = Inr (images s')"
    have "images s' ! p = images s ! p" if "p < length (images s)" "isLoading (images s' ! p)" for p
    proof -
      from reconcile_nth_cases [OF rec that(1)]
      consider "images s' ! p = images s ! p"
        | x :: ImageResult where "images s' ! p =
            (images s ! p)\<lparr>prediction := prediction x, error := error x, isLoading := False\<rparr>"
        by blast
      then show ?thesis
      proof cases
        case 1
        then show ?thesis .
      next
        case 2
        then have "\<not> isLoading (images s' ! p)" by simp
        with that(2) show ?thesis by simp
      qed
    qed
    with reconcile_length [OF rec] show ?thesis by simp
  qed
qed

lemma step_other_items:
  assumes "step e s = Inr s'" "\<forall>b j r post. e \<noteq> Settle b j r post"
  shows "\<forall>y\<in>set (images s'). y \<in> set (images s) \<or> (\<exists>picks. e = Upload picks \<and> y \<in> set (newImages picks))"
proof (cases e)
  case (Upload picks)
  show ?thesis
  proof (cases "picks = []")
    case True
    with assms(1) Upload have "s' = s" by simp
    then show ?thesis by simp
  next
    case False
    with assms(1) Upload have "images s' = images s @ newImages picks" by auto
    with Upload show ?thesis by simp
  qed
next
  case (Settle b j r post)
  with assms(2) show ?thesis by blast
next
  case (Remove k)
  with assms(1) show ?thesis by (auto simp: removeImage_def)
next
  case Reset
  with assms(1) show ?thesis by auto
qed

lemma newImages_loading:
  "\<forall>x\<in>set (newImages picks). isLoading x \<and> prediction x = None \<and> error x = None"
  by (auto simp: newImages_def)

lemma step_loading_inv:
  assumes "\<forall>x\<in>set (images s). isLoading x \<longrightarrow> prediction x = None \<and> error x = None"
    "step e s = Inr s'"
  shows "\<forall>x\<in>set (images s'). isLoading x \<longrightarrow> prediction x = None \<and> error x = None"
proof (cases "\<exists>b j r post. e = Settle b j r post")
  case True
  then obtain b j r post where e: "e = Settle b j r post" by blast
  from step_Settle_nth [OF assms(2) [unfolded e]]
  have len: "length (images s') = length (images s)"
    and same: "\<forall>p<length (images s). isLoading (images s' ! p) \<longrightarrow> images s' ! p = images s ! p"
    by simp_all
  show ?thesis
  proof (intro ballI impI)
    fix x assume "x \<in> set (images s')" "isLoading x"
    then obtain p where p: "p < length (images s')" "images s' ! p = x"
      by (auto simp: in_set_conv_nth)
    with same len \<open>isLoading x\<close> have "x = images s ! p" by auto
    with p(1) len have "x \<in> set (images s)" by simp
    with assms(1) \<open>isLoading x\<close> show "prediction x = None \<and> error x = None" by blast
  qed
next
  case False
  then have "\<forall>b j r post. e \<noteq> Settle b j r post" by blast
  from step_other_items [OF assms(2) this]
  have items: "\<forall>y\<in>set (images s').
      y \<in> set (images s) \<or> (\<exists>picks. e = Upload picks \<and> y \<in> set (newImages picks))" .
  show ?thesis
  proof (intro ballI impI)
    fix x assume x: "x \<in> set (images s')" "isLoading x"
    from items x(1)
    have "x \<in> set (images s) \<or> (\<exists>picks. e = Upload picks \<and> x \<in> set (newImages picks))"
      by (rule bspec)
    then show "prediction x = None \<and> error x = None"
    proof (elim disjE exE conjE)
      assume "x \<in> set (images s)"
      with assms(1) x(2) show ?thesis by simp
    next
      fix picks assume "x \<in> set (newImages picks)"
      with newImages_loading [of picks] show ?thesis by simp
    qed
  qed
qed

lemma run_loading_inv:
  "\<forall>x\<in>set (images s). isLoading x \<longrightarrow> prediction x = None \<and> error x = None \<Longrightarrow>
   run s es = Inr s' \<Longrightarrow>
   \<forall>x\<in>set (images s'). isLoading x \<longrightarrow> prediction x = None \<and> error x = None"
proof (induction es arbitrary: s)
  case Nil
  then show ?case by simp
next
  case (Cons e es)
  from Cons.prems(2) obtain s1 where s1: "step e s = Inr s1" "run s1 es = Inr s'"
    by (auto simp del: step.simps split: sum.splits)
  from step_loading_inv [OF Cons.prems(1) s1(1)] s1(2) show ?case
    by (rule Cons.IH)
qed

lemma reconcile_patched:
  assumes "reconcile prev news results = Inr upd" "length results = length news"
    "distinct (map id_img prev)" "p < length prev" "id_img (prev ! p) \<in> id_img ` set news"
  shows "\<not> isLoading (upd ! p)"
proof -
  from assms(5) obtain n where n: "n \<in> set news" "id_img n = id_img (prev ! p)" by auto
  from in_set_impl_in_set_zip1 [OF assms(2) [symmetric] n(1)]
  obtain r where r: "(n, r) \<in> set (zip news results)" .
  have "findIndex (\<lambda>img. id_img img = id_img (prev ! p)) prev = Some p"
    using assms(3,4) by (rule findIndex_distinct)
  with n(2) have "findIndex (\<lambda>img. id_img img = id_img n) prev = Some p" by simp
  with r have "\<exists>(n, r)\<in>set (zip news results).
      findIndex (\<lambda>img. id_img img = id_img n) prev = Some p" by blast
  from foldl_reconcile_patched [OF assms(4) this] reconcile_InrD [OF assms(1)]
  show ?thesis by simp
qed

lemma foldl_reconcile_last:
  "p < length upd \<Longrightarrow> i < length pairs \<Longrightarrow>
   findIndex (\<lambda>img. id_img img = id_img (fst (pairs ! i))) prev = Some p \<Longrightarrow>
   \<forall>i'<length pairs. i < i' \<longrightarrow>
      findIndex (\<lambda>img. id_img img = id_img (fst (pairs ! i'))) prev \<noteq> Some p \<Longrightarrow>
   foldl (\<lambda>u (n, r). reconcile_result prev u n r) upd pairs ! p =
     (upd ! p)\<lparr>prediction := prediction (snd (pairs ! i)), error := error (snd (pairs ! i)),
               isLoading := False\<rparr>"
proof (induction pairs arbitrary: upd i)
  case Nil
  then show ?case by simp
next
  case (Cons a pairs)
  obtain n r where a: "a = (n, r)" by (cases a)
  let ?u = "reconcile_result prev upd n r"
  have p: "p < length ?u" using Cons.prems(1) by simp
  show ?case
  proof (cases i)
    case 0
    have "\<forall>(m, q)\<in>set pairs. findIndex (\<lambda>img. id_img img = id_img m) prev \<noteq> Some p"
    proof (clarify)
      fix m q assume mq: "(m, q) \<in> set pairs"
        and f: "findIndex (\<lambda>img. id_img img = id_img m) prev = Some p"
      from mq obtain k where k: "k < length pairs" "pairs ! k = (m, q)"
        by (auto simp: in_set_conv_nth)
      from Cons.prems(4) [rule_format, of "Suc k"] k 0 f show False by simp
    qed
    from foldl_reconcile_untouched [OF p this] Cons.prems(1,3) 0
    show ?thesis by (simp add: a reconcile_result_nth)
  next
    case (Suc k)
    have k: "k < length pairs" using Cons.prems(2) Suc by simp
    have f: "findIndex (\<lambda>img. id_img img = id_img (fst (pairs ! k))) prev = Some p"
      using Cons.prems(3) Suc by simp
    have l: "\<forall>i'<length pairs. k < i' \<longrightarrow>
        findIndex (\<lambda>img. id_img img = id_img (fst (pairs ! i'))) prev \<noteq> Some p"
    proof (intro allI impI)
      fix i' assume "i' < length pairs" "k < i'"
      with Cons.prems(4) [rule_format, of "Suc i'"] Suc
      show "findIndex (\<lambda>img. id_img img = id_img (fst (pairs ! i'))) prev \<noteq> Some p"
        by simp
    qed
    from Cons.IH [OF p k f l]
    have "foldl (\<lambda>u (n, r). reconcile_result prev u n r) ?u pairs ! p =
        (?u ! p)\<lparr>prediction := prediction (snd (pairs ! k)), error := error (snd (pairs ! k)),
                  isLoading := False\<rparr>" .
    then show ?thesis
      using Cons.prems(1) Suc by (simp add: a reconcile_result_nth)
  qed
qed

lemma reconcile_nth_last:
  assumes "reconcile prev news results = Inr upd" "length results = length news"
    "i < length news"
    "findIndex (\<lambda>img. id_img img = id_img (news ! i)) prev = Some p"
    "\<forall>i'<length news. i < i' \<longrightarrow>
       findIndex (\<lambda>img. id_img img = id_img (news ! i')) prev \<noteq> Some p"
  shows "upd ! p = (prev ! p)\<lparr>prediction := prediction (results ! i),
                             error := error (results ! i), isLoading := False\<rparr>"
proof -
  have upd: "upd = foldl (\<lambda>u (n, r). reconcile_result prev u n r) prev (zip news results)"
    using assms(1) by (rule reconcile_InrD)
  have p: "p < length prev" using findIndex_SomeD [OF assms(4)] by simp
  have i: "i < length (zip news results)" using assms(2,3) by simp
  have f: "findIndex (\<lambda>img. id_img img = id_img (fst (zip news results ! i))) prev = Some p"
    using assms(2,3,4) by simp
  have l: "\<forall>i'<length (zip news results). i < i' \<longrightarrow>
      findIndex (\<lambda>img. id_img img = id_img (fst (zip news results ! i'))) prev \<noteq> Some p"
    using assms(2,5) by simp
  from foldl_reconcile_last [OF p i f l] upd assms(2,3) show ?thesis by simp
qed

lemma reconcile_nth_none:
  assumes "reconcile prev news results = Inr upd" "p < length prev"
    "\<forall>i<length news. findIndex (\<lambda>img. id_img img = id_img (news ! i)) prev \<noteq> Some p"
  shows "upd ! p = prev ! p"
proof -
  have upd: "upd = foldl (\<lambda>u (n, r). reconcile_result prev u n r) prev (zip news results)"
    using assms(1) by (rule reconcile_InrD)
  have "\<forall>(n, r)\<in>set (zip news results).
          findIndex (\<lambda>img. id_img img = id_img n) prev \<noteq> Some p"
  proof (clarify)
    fix n r assume nr: "(n, r) \<in> set (zip news results)"
      and f: "findIndex (\<lambda>img. id_img img = id_img n) prev = Some p"
    from nr have "n \<in> set news" by (rule set_zip_leftD)
    then obtain i where "i < length news" "news ! i = n" by (auto simp: in_set_conv_nth)
    with assms(3) f show False by auto
  qed
  from foldl_reconcile_untouched [OF assms(2) this] upd show ?thesis by simp
qed

lemma settle_some_pending:
  assumes "b < length (batches s)" "wf_batch (batches s ! b)" "distinct order"
    "\<forall>j\<in>set order. j < length (b_promises (batches s ! b)) \<and> b_promises (batches s ! b) ! j = None"
    "k < length (b_promises (batches s ! b))" "b_promises (batches s ! b) ! k = None"
    "k \<notin> set order"
  shows "\<exists>s'. run s (map (\<lambda>j. Settle b j (rnd j) (post j)) order) = Inr s' \<and>
           images s' = images s"
  using assms
proof (induction order arbitrary: s)
  case Nil
  then show ?case by simp
next
  case (Cons j rest)
  let ?bt = "batches s ! b"
  let ?ps = "(b_promises ?bt)[j := Some (processImage (b_files ?bt ! j) (rnd j) (post j))]"
  let ?s1 = "s\<lparr>batches := (batches s)[b := ?bt\<lparr>b_promises := ?ps\<rparr>]\<rparr>"
  from Cons.prems(4) have j: "j < length (b_promises ?bt)" "b_promises ?bt ! j = None" by simp_all
  from Cons.prems(2) j have jf: "j < length (b_files ?bt)" by (simp add: wf_batch_def)
  from Cons.prems(7) have kj: "k \<noteq> j" by auto
  have s1: "step (Settle b j (rnd j) (post j)) s = Inr ?s1"
    using Cons.prems(1) j(1) jf j(2) Cons.prems(5) kj Cons.prems(6)
    by (rule step_Settle_pending_valid)
  have bt1: "batches ?s1 ! b = ?bt\<lparr>b_promises := ?ps\<rparr>"
    using Cons.prems(1) by simp
  have b1: "b < length (batches ?s1)" using Cons.prems(1) by simp
  have wf1: "wf_batch (batches ?s1 ! b)"
    using Cons.prems(2) unfolding bt1 by (simp add: wf_batch_def)
  have d1: "distinct rest" using Cons.prems(3) by simp
  have p1: "\<forall>i\<in>set rest. i < length (b_promises (batches ?s1 ! b)) \<and>
      b_promises (batches ?s1 ! b) ! i = None"
  proof
    fix i assume i: "i \<in> set rest"
    with Cons.prems(3) have "i \<noteq> j" by auto
    moreover from i Cons.prems(4) have "i < length (b_promises ?bt)" "b_promises ?bt ! i = None"
      by simp_all
    ultimately show "i < length (b_promises (batches ?s1 ! b)) \<and>
      b_promises (batches ?s1 ! b) ! i = None"
      unfolding bt1 by simp
  qed
  have k1: "k < length (b_promises (batches ?s1 ! b))" "b_promises (batches ?s1 ! b) ! k = None"
    unfolding bt1 using Cons.prems(5,6) kj by simp_all
  have k2: "k \<notin> set rest" using Cons.prems(7) by simp
  from Cons.IH [OF b1 wf1 d1 p1 k1 k2]
  obtain s' where s': "run ?s1 (map (\<lambda>j. Settle b j (rnd j) (post j)) rest) = Inr s'"
    "images s' = images ?s1" by blast
  from s'(2) have "images s' = images s" by simp
  moreover have "run s (map (\<lambda>j. Settle b j (rnd j) (post j)) (j # rest)) = Inr s'"
    using s1 s'(1) by (simp del: step.simps)
  ultimately show ?case by blast
qed

section \<open>The claims\<close>

text \<open>
  Claim C8. Selecting no file leaves the store as it is. Selecting \<open>N \<ge> 1\<close> files appends,
  in one update, exactly \<open>N\<close> placeholders to the end of the store: the items already
  there are kept, the \<open>i\<close>-th placeholder belongs to the \<open>i\<close>-th file, and each is loading
  with neither a prediction nor an error.
\<close>

theorem upload_appends_placeholders:
  "step (Upload []) s = Inr s \<and>
   (picks \<noteq> [] \<longrightarrow>
      (\<exists>s'. step (Upload picks) s = Inr s' \<and> images s' = images s @ newImages picks)) \<and>
   length (newImages picks) = length picks \<and>
   (\<forall>i<length picks.
      newImages picks ! i =
        \<lparr>id_img = random_id (snd (picks ! i)), image_img = objectURL (fst (picks ! i)),
         prediction = None, error = None, isLoading = True\<rparr>)"
  by (auto simp: newImages_def split_beta)

theorem upload_appends_placeholders_witness:
  "[(\<lparr>objectURL = ''blob:a'', dataURL = ''data:a''\<rparr>, ''0.4fzyo82mvyr''),
    (\<lparr>objectURL = ''blob:b'', dataURL = ''data:b''\<rparr>, ''0.8kq1x7c9d2e'')] \<noteq> [] \<and>
   step (Upload []) init = Inr init \<and>
   (\<exists>s'. step (Upload [(\<lparr>objectURL = ''blob:a'', dataURL = ''data:a''\<rparr>, ''0.4fzyo82mvyr''),
                        (\<lparr>objectURL = ''blob:b'', dataURL = ''data:b''\<rparr>, ''0.8kq1x7c9d2e'')]) init
           = Inr s' \<and>
         images s' =
           [\<lparr>id_img = ''82mvyr'', image_img = ''blob:a'', prediction = None, error = None,
             isLoading = True\<rparr>,
            \<lparr>id_img = ''7c9d2e'', image_img = ''blob:b'', prediction = None, error = None,
             isLoading = True\<rparr>])"
  using upload_appends_placeholders
    [of init "[(\<lparr>objectURL = ''blob:a'', dataURL = ''data:a''\<rparr>, ''0.4fzyo82mvyr''),
               (\<lparr>objectURL = ''blob:b'', dataURL = ''data:b''\<rparr>, ''0.8kq1x7c9d2e'')]"]
  by (simp add: init_def newImages_def random_id_def substring_def)

text \<open>
  Claim C4. Reconciling a result whose placeholder \<open>id\<close> is not in the store changes
  nothing: the \<open>forEach\<close> callback returns \<open>updatedImages\<close> as it got it, so nothing is
  added back and no other item is touched. In a batch, the results whose \<open>id\<close> is absent can
  be dropped without changing the outcome; if every \<open>id\<close> of the batch is absent the store
  is returned as it was. The updater does not throw, and no sequence of events from the
  initial state makes it throw.
\<close>

theorem reconcile_absent_noop:
  "(id_img placeholder \<notin> id_img ` set prev \<longrightarrow>
      reconcile_result prev updatedImages placeholder result = updatedImages \<and>
      reconcile prev [placeholder] [result] = Inr prev) \<and>
   (length results = length news \<longrightarrow>
      reconcile prev news results \<noteq> Inl TypeError \<and>
      reconcile prev news results =
        reconcile prev
          (map fst (filter (\<lambda>(n, r). id_img n \<in> id_img ` set prev) (zip news results)))
          (map snd (filter (\<lambda>(n, r). id_img n \<in> id_img ` set prev) (zip news results)))) \<and>
   (length results = length news \<and> (\<forall>n\<in>set news. id_img n \<notin> id_img ` set prev) \<longrightarrow>
      reconcile prev news results = Inr prev) \<and>
   (\<exists>s'. run init es = Inr s')"
proof (intro conjI impI)
  assume a: "id_img placeholder \<notin> id_img ` set prev"
  then show "reconcile_result prev updatedImages placeholder result = updatedImages"
    by (rule reconcile_result_absent)
  from a show "reconcile prev [placeholder] [result] = Inr prev"
    by (simp add: reconcile_def reconcile_result_absent)
next
  assume a: "length results = length news"
  then show "reconcile prev news results \<noteq> Inl TypeError"
    by (simp add: reconcile_foldl)
  let ?kept = "filter (\<lambda>(n, r). id_img n \<in> id_img ` set prev) (zip news results)"
  have "reconcile prev (map fst ?kept) (map snd ?kept) =
      Inr (foldl (\<lambda>u (n, r). reconcile_result prev u n r) prev ?kept)"
    by (simp add: reconcile_foldl zip_map_fst_snd)
  also have "\<dots> = reconcile prev news results"
    using a foldl_reconcile_filter [of prev prev "zip news results"]
    by (simp add: reconcile_foldl)
  finally show "reconcile prev news results = reconcile prev (map fst ?kept) (map snd ?kept)"
    by simp
next
  assume a: "length results = length news \<and> (\<forall>n\<in>set news. id_img n \<notin> id_img ` set prev)"
  then have "\<forall>(n, r)\<in>set (zip news results). id_img n \<notin> id_img ` set prev"
    by (auto dest: set_zip_leftD)
  from foldl_reconcile_absent [OF this] a show "reconcile prev news results = Inr prev"
    by (simp add: reconcile_foldl)
next
  from run_total [OF wf_init, of es] show "\<exists>s'. run init es = Inr s'" by blast
qed

theorem reconcile_absent_noop_witness:
  "''7c9d2e'' \<notin> id_img ` set [\<lparr>id_img = ''82mvyr'', image_img = ''blob:a'', prediction = None,
        error = None, isLoading = True\<rparr>] \<and>
   reconcile
     [\<lparr>id_img = ''82mvyr'', image_img = ''blob:a'', prediction = None, error = None,
       isLoading = True\<rparr>]
     [\<lparr>id_img = ''7c9d2e'', image_img = ''blob:b'', prediction = None, error = None,
       isLoading = True\<rparr>]
     [\<lparr>id_img = ''x'', image_img = ''data:b'', prediction = Some ''dog'', error = None,
       isLoading = False\<rparr>] =
   Inr [\<lparr>id_img = ''82mvyr'', image_img = ''blob:a'', prediction = None, error = None,
         isLoading = True\<rparr>]"
  using reconcile_absent_noop
    [of "\<lparr>id_img = ''7c9d2e'', image_img = ''blob:b'', prediction = None, error = None,
          isLoading = True\<rparr>"
        "[\<lparr>id_img = ''82mvyr'', image_img = ''blob:a'', prediction = None, error = None,
          isLoading = True\<rparr>]"
        "[\<lparr>id_img = ''82mvyr'', image_img = ''blob:a'', prediction = None, error = None,
          isLoading = True\<rparr>]"
        "\<lparr>id_img = ''x'', image_img = ''data:b'', prediction = Some ''dog'', error = None,
          isLoading = False\<rparr>"
        "[\<lparr>id_img = ''x'', image_img = ''data:b'', prediction = Some ''dog'', error = None,
          isLoading = False\<rparr>]"
        "[\<lparr>id_img = ''7c9d2e'', image_img = ''blob:b'', prediction = None, error = None,
          isLoading = True\<rparr>]"
        "[]"]
  by simp

text \<open>
  Claim C10. When two items of the store carry the same \<open>id\<close>, reconciling a result for
  that \<open>id\<close> patches the first of them only (the later one keeps its record), while
  \<open>removeImage\<close> with that \<open>id\<close> deletes both, and every other occurrence too: what it
  leaves is exactly the items with another \<open>id\<close>, each of them kept, in their order, so
  the store shrinks by the number of items that carried the \<open>id\<close>, which is at least two.
\<close>

theorem duplicate_id_asymmetry:
  assumes "i < j" "j < length prev" "id_img (prev ! i) = k" "id_img (prev ! j) = k"
    "\<forall>p<i. id_img (prev ! p) \<noteq> k" "id_img placeholder = k"
  shows "reconcile prev [placeholder] [result] =
           Inr (prev[i := (prev ! i)\<lparr>prediction := prediction result, error := error result,
                                    isLoading := False\<rparr>]) \<and>
         (prev[i := (prev ! i)\<lparr>prediction := prediction result, error := error result,
                                    isLoading := False\<rparr>]) ! j = prev ! j \<and>
         k \<notin> id_img ` set (removeImage k prev) \<and>
         length (removeImage k prev) + 2 \<le> length prev \<and>
         removeImage k prev = filter (\<lambda>img. id_img img \<noteq> k) prev \<and>
         (\<forall>x\<in>set prev. id_img x \<noteq> k \<longrightarrow> x \<in> set (removeImage k prev)) \<and>
         length (removeImage k prev) + length (filter (\<lambda>img. id_img img = k) prev) =
           length prev"
proof -
  have "findIndex (\<lambda>img. id_img img = id_img placeholder) prev = Some i"
    using assms by (intro findIndex_first) auto
  then have "reconcile prev [placeholder] [result] =
           Inr (prev[i := (prev ! i)\<lparr>prediction := prediction result, error := error result,
                                    isLoading := False\<rparr>])"
    by (simp add: reconcile_def reconcile_result_def)
  moreover have "k \<notin> id_img ` set (removeImage k prev)"
    by (auto simp: removeImage_def)
  moreover note removeImage_length_two [OF assms(1-4)]
  moreover have "removeImage k prev = filter (\<lambda>img. id_img img \<noteq> k) prev"
    by (simp add: removeImage_def)
  moreover have "\<forall>x\<in>set prev. id_img x \<noteq> k \<longrightarrow> x \<in> set (removeImage k prev)"
    by (simp add: removeImage_def)
  moreover have "length (removeImage k prev) + length (filter (\<lambda>img. id_img img = k) prev) =
      length prev"
    using sum_length_filter_compl [of "\<lambda>img. id_img img = k" prev]
    by (simp add: removeImage_def add.commute)
  ultimately show ?thesis using assms(1) by simp
qed

theorem duplicate_id_asymmetry_witness:
  "reconcile
     [\<lparr>id_img = '''', image_img = ''blob:a'', prediction = None, error = None, isLoading = True\<rparr>,
      \<lparr>id_img = ''7c9d2e'', image_img = ''blob:c'', prediction = None, error = None,
       isLoading = True\<rparr>,
      \<lparr>id_img = '''', image_img = ''blob:b'', prediction = None, error = None, isLoading = True\<rparr>]
     [\<lparr>id_img = '''', image_img = ''blob:b'', prediction = None, error = None, isLoading = True\<rparr>]
     [\<lparr>id_img = ''x'', image_img = ''data:b'', prediction = Some ''dog'', error = None,
       isLoading = False\<rparr>] =
   Inr [\<lparr>id_img = '''', image_img = ''blob:a'', prediction = Some ''dog'', error = None,
         isLoading = False\<rparr>,
        \<lparr>id_img = ''7c9d2e'', image_img = ''blob:c'', prediction = None, error = None,
         isLoading = True\<rparr>,
        \<lparr>id_img = '''', image_img = ''blob:b'', prediction = None, error = None,
         isLoading = True\<rparr>] \<and>
   removeImage ''''
     [\<lparr>id_img = '''', image_img = ''blob:a'', prediction = None, error = None, isLoading = True\<rparr>,
      \<lparr>id_img = ''7c9d2e'', image_img = ''blob:c'', prediction = None, error = None,
       isLoading = True\<rparr>,
      \<lparr>id_img = '''', image_img = ''blob:b'', prediction = None, error = None, isLoading = True\<rparr>]
   = [\<lparr>id_img = ''7c9d2e'', image_img = ''blob:c'', prediction = None, error = None,
       isLoading = True\<rparr>]"
proof -
  let ?a = "\<lparr>id_img = '''', image_img = ''blob:a'', prediction = None, error = None,
             isLoading = True\<rparr>"
  let ?c = "\<lparr>id_img = ''7c9d2e'', image_img = ''blob:c'', prediction = None, error = None,
             isLoading = True\<rparr>"
  let ?b = "\<lparr>id_img = '''', image_img = ''blob:b'', prediction = None, error = None,
             isLoading = True\<rparr>"
  let ?r = "\<lparr>id_img = ''x'', image_img = ''data:b'', prediction = Some ''dog'', error = None,
             isLoading = False\<rparr>"
  have h: "(0::nat) < 2" "2 < length [?a, ?c, ?b]" "id_img ([?a, ?c, ?b] ! 0) = ''''"
    "id_img ([?a, ?c, ?b] ! 2) = ''''" "\<forall>p<0::nat. id_img ([?a, ?c, ?b] ! p) \<noteq> ''''"
    "id_img ?b = ''''"
    by simp_all
  note T = duplicate_id_asymmetry [OF h, of ?r]
  from T [THEN conjunct1] have a: "reconcile [?a, ?c, ?b] [?b] [?r] =
      Inr [?a\<lparr>prediction := Some ''dog'', error := None, isLoading := False\<rparr>, ?c, ?b]"
    by simp
  from T [THEN conjunct2, THEN conjunct2, THEN conjunct2, THEN conjunct2, THEN conjunct1]
  have b: "removeImage '''' [?a, ?c, ?b] = [?c]" by simp
  from a b show ?thesis by simp
qed

text \<open>
  Claim C2, as the claim states it, fails: a reply with a true success flag and no label
  ends as an item with neither a prediction nor an error, not loading.
\<close>

theorem success_without_label_counterexample:
  "run init
     [Upload [(\<lparr>objectURL = ''blob:a'', dataURL = ''data:a''\<rparr>, ''0.4fzyo82mvyr'')],
      Settle 0 0 ''0.i''
        (Response \<lparr>data_success = True, data_prediction = None, data_error = None\<rparr>)] =
   Inr \<lparr>images =
          [\<lparr>id_img = ''82mvyr'', image_img = ''blob:a'', prediction = None, error = None,
            isLoading = False\<rparr>],
        batches =
          [\<lparr>b_files = [\<lparr>objectURL = ''blob:a'', dataURL = ''data:a''\<rparr>],
            b_newImages =
              [\<lparr>id_img = ''82mvyr'', image_img = ''blob:a'', prediction = None, error = None,
                isLoading = True\<rparr>],
            b_promises =
              [Some \<lparr>id_img = [], image_img = ''data:a'', prediction = None, error = None,
                     isLoading = False\<rparr>]\<rparr>]\<rparr>"
  by (simp add: init_def newImages_def random_id_def substring_def processImage_def
      reconcile_def reconcile_result_def)

text \<open>
  Claim C2, amended. The result of a pipeline never has both a prediction and an error.
  It has exactly one of them unless the service replied with a true success flag and no
  label: then, and only then, it has neither, and no fallback error is set. A reply
  without a true success flag always gives an error. Reconciliation copies the two fields
  to the item and ends its loading.
\<close>

theorem prediction_xor_error_unless_unlabelled_success:
  "\<not> (prediction (processImage f r post) \<noteq> None \<and> error (processImage f r post) \<noteq> None) \<and>
   ((prediction (processImage f r post) = None \<and> error (processImage f r post) = None) \<longleftrightarrow>
      (\<exists>d. post = Response d \<and> data_success d \<and> data_prediction d = None)) \<and>
   ((\<forall>d. post = Response d \<longrightarrow> \<not> data_success d) \<longrightarrow> error (processImage f r post) \<noteq> None) \<and>
   reconcile [item] [item] [processImage f r post] =
     Inr [item\<lparr>prediction := prediction (processImage f r post),
                error := error (processImage f r post), isLoading := False\<rparr>]"
  by (cases post)
     (auto simp: processImage_def Let_def reconcile_def reconcile_result_def)

theorem prediction_xor_error_unless_unlabelled_success_witness:
  "error (processImage \<lparr>objectURL = ''blob:a'', dataURL = ''data:a''\<rparr> ''0.i''
     (Response \<lparr>data_success = False, data_prediction = None, data_error = None\<rparr>)) \<noteq> None \<and>
   prediction (processImage \<lparr>objectURL = ''blob:a'', dataURL = ''data:a''\<rparr> ''0.i''
     (Response \<lparr>data_success = False, data_prediction = None, data_error = None\<rparr>)) = None"
  using prediction_xor_error_unless_unlabelled_success
    [of "\<lparr>objectURL = ''blob:a'', dataURL = ''data:a''\<rparr>" "''0.i''"
        "Response \<lparr>data_success = False, data_prediction = None, data_error = None\<rparr>"
        "\<lparr>id_img = ''82mvyr'', image_img = ''blob:a'', prediction = None, error = None,
          isLoading = True\<rparr>"]
  by auto




text \<open>
  Claim C9, as the claim states it, fails: after the pipeline of a file has resolved and
  been reconciled, the item still shows the object URL, not the data URI.
\<close>

theorem image_not_replaced_counterexample:
  "run init
     [Upload [(\<lparr>objectURL = ''blob:a'', dataURL = ''data:a''\<rparr>, ''0.4fzyo82mvyr'')],
      Settle 0 0 ''0.i''
        (Response \<lparr>data_success = True, data_prediction = Some ''cat'', data_error = None\<rparr>)] =
   Inr \<lparr>images =
          [\<lparr>id_img = ''82mvyr'', image_img = ''blob:a'', prediction = Some ''cat'',
            error = None, isLoading = False\<rparr>],
        batches =
          [\<lparr>b_files = [\<lparr>objectURL = ''blob:a'', dataURL = ''data:a''\<rparr>],
            b_newImages =
              [\<lparr>id_img = ''82mvyr'', image_img = ''blob:a'', prediction = None, error = None,
                isLoading = True\<rparr>],
            b_promises =
              [Some \<lparr>id_img = [], image_img = ''data:a'', prediction = Some ''cat'',
                     error = None, isLoading = False\<rparr>]\<rparr>]\<rparr>"
  by (simp add: init_def newImages_def random_id_def substring_def processImage_def
      reconcile_def reconcile_result_def)

text \<open>
  Claim C9, amended. The \<open>image\<close> of a placeholder is the object URL of its file, and it
  stays: the result of a pipeline carries the data URI, but reconciliation writes only
  \<open>prediction\<close>, \<open>error\<close> and \<open>isLoading\<close>, so the end of a pipeline leaves the \<open>image\<close> of
  every item of the store as it was.
\<close>

theorem image_keeps_object_url:
  "map image_img (newImages picks) = map (objectURL \<circ> fst) picks \<and>
   image_img (processImage f r post) = dataURL f \<and>
   (reconcile prev news results = Inr updatedImages \<longrightarrow>
      map image_img updatedImages = map image_img prev) \<and>
   (step (Settle b j r post) s = Inr s' \<longrightarrow>
      map image_img (images s') = map image_img (images s))"
proof (intro conjI impI)
  show "map image_img (newImages picks) = map (objectURL \<circ> fst) picks"
    by (simp add: newImages_def split_beta comp_def)
  show "image_img (processImage f r post) = dataURL f"
    by (cases post) (simp_all add: processImage_def Let_def)
next
  assume "reconcile prev news results = Inr updatedImages"
  from reconcile_InrD [OF this] show "map image_img updatedImages = map image_img prev"
    by simp
next
  assume "step (Settle b j r post) s = Inr s'"
  from step_Settle_cases [OF this] show "map image_img (images s') = map image_img (images s)"
    by (auto dest: reconcile_InrD)
qed

theorem image_keeps_object_url_witness:
  "reconcile
     [\<lparr>id_img = ''82mvyr'', image_img = ''blob:a'', prediction = None, error = None,
       isLoading = True\<rparr>]
     [\<lparr>id_img = ''82mvyr'', image_img = ''blob:a'', prediction = None, error = None,
       isLoading = True\<rparr>]
     [\<lparr>id_img = [], image_img = ''data:a'', prediction = Some ''cat'', error = None,
       isLoading = False\<rparr>] =
   Inr [\<lparr>id_img = ''82mvyr'', image_img = ''blob:a'', prediction = Some ''cat'', error = None,
         isLoading = False\<rparr>] \<and>
   step (Settle 0 0 ''0.i''
          (Response \<lparr>data_success = True, data_prediction = Some ''cat'', data_error = None\<rparr>))
     \<lparr>images =
        [\<lparr>id_img = ''82mvyr'', image_img = ''blob:a'', prediction = None, error = None,
          isLoading = True\<rparr>],
      batches =
        [\<lparr>b_files = [\<lparr>objectURL = ''blob:a'', dataURL = ''data:a''\<rparr>],
          b_newImages =
            [\<lparr>id_img = ''82mvyr'', image_img = ''blob:a'', prediction = None, error = None,
              isLoading = True\<rparr>],
          b_promises = [None]\<rparr>]\<rparr> =
   Inr \<lparr>images =
          [\<lparr>id_img = ''82mvyr'', image_img = ''blob:a'', prediction = Some ''cat'',
            error = None, isLoading = False\<rparr>],
        batches =
          [\<lparr>b_files = [\<lparr>objectURL = ''blob:a'', dataURL = ''data:a''\<rparr>],
            b_newImages =
              [\<lparr>id_img = ''82mvyr'', image_img = ''blob:a'', prediction = None, error = None,
                isLoading = True\<rparr>],
            b_promises =
              [Some \<lparr>id_img = [], image_img = ''data:a'', prediction = Some ''cat'',
                     error = None, isLoading = False\<rparr>]\<rparr>]\<rparr> \<and>
   map image_img
     [\<lparr>id_img = ''82mvyr'', image_img = ''blob:a'', prediction = Some ''cat'', error = None,
       isLoading = False\<rparr>] = [''blob:a'']"
proof -
  let ?ph = "\<lparr>id_img = ''82mvyr'', image_img = ''blob:a'', prediction = None, error = None,
              isLoading = True\<rparr>"
  let ?res = "\<lparr>id_img = [], image_img = ''data:a'', prediction = Some ''cat'', error = None,
               isLoading = False\<rparr>"
  let ?done = "\<lparr>id_img = ''82mvyr'', image_img = ''blob:a'', prediction = Some ''cat'',
                error = None, isLoading = False\<rparr>"
  let ?f = "\<lparr>objectURL = ''blob:a'', dataURL = ''data:a''\<rparr>"
  let ?post = "Response \<lparr>data_success = True, data_prediction = Some ''cat'', data_error = None\<rparr>"
  let ?s = "\<lparr>images = [?ph],
             batches = [\<lparr>b_files = [?f], b_newImages = [?ph], b_promises = [None]\<rparr>]\<rparr>"
  let ?s' = "\<lparr>images = [?done],
              batches = [\<lparr>b_files = [?f], b_newImages = [?ph], b_promises = [Some ?res]\<rparr>]\<rparr>"
  have h1: "reconcile [?ph] [?ph] [?res] = Inr [?done]"
    by (simp add: reconcile_def reconcile_result_def)
  have h2: "step (Settle 0 0 ''0.i'' ?post) ?s = Inr ?s'"
    by (simp add: processImage_def random_id_def substring_def reconcile_def
        reconcile_result_def)
  from image_keeps_object_url
    [of "[(?f, ''0.4fzyo82mvyr'')]" ?f "''0.i''" ?post "[?ph]" "[?ph]" "[?res]" "[?done]" 0 0 ?s ?s']
    h1 h2
  show ?thesis by simp
qed

text \<open>
  Claim C1, as the claim states it, fails: of two files selected together, the second
  pipeline has resolved and the first has not; the item of the second file is still
  loading, because the store is written only after \<open>Promise.all\<close>.
\<close>

theorem resolved_sibling_waits_counterexample:
  "run init
     [Upload [(\<lparr>objectURL = ''blob:a'', dataURL = ''data:a''\<rparr>, ''0.4fzyo82mvyr''),
              (\<lparr>objectURL = ''blob:b'', dataURL = ''data:b''\<rparr>, ''0.8kq1x7c9d2e'')],
      Settle 0 1 ''0.i''
        (Response \<lparr>data_success = True, data_prediction = Some ''dog'', data_error = None\<rparr>)] =
   Inr \<lparr>images =
          [\<lparr>id_img = ''82mvyr'', image_img = ''blob:a'', prediction = None, error = None,
            isLoading = True\<rparr>,
           \<lparr>id_img = ''7c9d2e'', image_img = ''blob:b'', prediction = None, error = None,
            isLoading = True\<rparr>],
        batches =
          [\<lparr>b_files = [\<lparr>objectURL = ''blob:a'', dataURL = ''data:a''\<rparr>,
                       \<lparr>objectURL = ''blob:b'', dataURL = ''data:b''\<rparr>],
            b_newImages =
              [\<lparr>id_img = ''82mvyr'', image_img = ''blob:a'', prediction = None, error = None,
                isLoading = True\<rparr>,
               \<lparr>id_img = ''7c9d2e'', image_img = ''blob:b'', prediction = None, error = None,
                isLoading = True\<rparr>],
            b_promises =
              [None,
               Some \<lparr>id_img = [], image_img = ''data:b'', prediction = Some ''dog'',
                     error = None, isLoading = False\<rparr>]\<rparr>]\<rparr>"
  by (simp add: init_def newImages_def random_id_def substring_def processImage_def)

text \<open>
  Claim C1, amended. The end of a pipeline writes nothing to the store while a sibling
  pipeline of the same batch is still pending: the store is left exactly as it was, after
  one such end and after any number of them, so a slow item does delay the reconciliation
  of its resolved siblings. When the last pipeline of the batch resolves, the outcomes of
  the whole batch are written in one update of the store: the store keeps its length,
  an item at which the \<open>id\<close> of a placeholder of the batch is first found takes the
  prediction and the error of that file's result (of the last such file, should several
  placeholders share the \<open>id\<close>) and stops loading, and every other item is left as it
  was. Pipelines of other batches play no part in this.
\<close>

theorem batch_reconciled_when_last_pipeline_resolves:
  assumes "b < length (batches s)" "wf_batch (batches s ! b)"
  shows
    "(distinct order \<and>
      (\<forall>j\<in>set order. j < length (b_promises (batches s ! b)) \<and>
                        b_promises (batches s ! b) ! j = None) \<and>
      (\<exists>k<length (b_promises (batches s ! b)).
          b_promises (batches s ! b) ! k = None \<and> k \<notin> set order) \<longrightarrow>
      (\<exists>s'. run s (map (\<lambda>j. Settle b j (rnds j) (posts j)) order) = Inr s' \<and>
            images s' = images s)) \<and>
     (j < length (b_promises (batches s ! b)) \<and> b_promises (batches s ! b) ! j = None \<longrightarrow>
      (\<exists>s'. step (Settle b j r post) s = Inr s' \<and>
         (if \<exists>k<length (b_promises (batches s ! b)).
               k \<noteq> j \<and> b_promises (batches s ! b) ! k = None
          then images s' = images s
          else length (images s') = length (images s) \<and>
            (\<forall>p<length (images s).
               (\<forall>i<length (b_newImages (batches s ! b)).
                  findIndex (\<lambda>img. id_img img = id_img (b_newImages (batches s ! b) ! i))
                    (images s) = Some p \<and>
                  (\<forall>i'<length (b_newImages (batches s ! b)). i < i' \<longrightarrow>
                     findIndex (\<lambda>img. id_img img = id_img (b_newImages (batches s ! b) ! i'))
                       (images s) \<noteq> Some p) \<longrightarrow>
                  images s' ! p =
                    (images s ! p)
                      \<lparr>prediction := prediction (the ((b_promises (batches s ! b))
                          [j := Some (processImage (b_files (batches s ! b) ! j) r post)] ! i)),
                       error := error (the ((b_promises (batches s ! b))
                          [j := Some (processImage (b_files (batches s ! b) ! j) r post)] ! i)),
                       isLoading := False\<rparr>) \<and>
               ((\<forall>i<length (b_newImages (batches s ! b)).
                   findIndex (\<lambda>img. id_img img = id_img (b_newImages (batches s ! b) ! i))
                     (images s) \<noteq> Some p) \<longrightarrow>
                images s' ! p = images s ! p)))))"
proof (intro conjI impI)
  assume a: "distinct order \<and>
      (\<forall>j\<in>set order. j < length (b_promises (batches s ! b)) \<and>
                        b_promises (batches s ! b) ! j = None) \<and>
      (\<exists>k<length (b_promises (batches s ! b)).
          b_promises (batches s ! b) ! k = None \<and> k \<notin> set order)"
  then obtain k where k: "k < length (b_promises (batches s ! b))"
    "b_promises (batches s ! b) ! k = None" "k \<notin> set order"
    by (auto simp del: not_None_eq)
  from a have d: "distinct order"
    and p: "\<forall>j\<in>set order. j < length (b_promises (batches s ! b)) \<and>
                        b_promises (batches s ! b) ! j = None"
    by simp_all
  from settle_some_pending [OF assms d p k]
  show "\<exists>s'. run s (map (\<lambda>j. Settle b j (rnds j) (posts j)) order) = Inr s' \<and>
            images s' = images s" .
next
  let ?bt = "batches s ! b"
  let ?ps = "(b_promises ?bt)[j := Some (processImage (b_files ?bt ! j) r post)]"
  assume "j < length (b_promises ?bt) \<and> b_promises ?bt ! j = None"
  then have j: "j < length (b_promises ?bt)" "b_promises ?bt ! j = None" by simp_all
  show "\<exists>s'. step (Settle b j r post) s = Inr s' \<and>
         (if \<exists>k<length (b_promises ?bt). k \<noteq> j \<and> b_promises ?bt ! k = None
          then images s' = images s
          else length (images s') = length (images s) \<and>
            (\<forall>p<length (images s).
               (\<forall>i<length (b_newImages ?bt).
                  findIndex (\<lambda>img. id_img img = id_img (b_newImages ?bt ! i))
                    (images s) = Some p \<and>
                  (\<forall>i'<length (b_newImages ?bt). i < i' \<longrightarrow>
                     findIndex (\<lambda>img. id_img img = id_img (b_newImages ?bt ! i'))
                       (images s) \<noteq> Some p) \<longrightarrow>
                  images s' ! p =
                    (images s ! p)
                      \<lparr>prediction := prediction (the (?ps ! i)),
                       error := error (the (?ps ! i)),
                       isLoading := False\<rparr>) \<and>
               ((\<forall>i<length (b_newImages ?bt).
                   findIndex (\<lambda>img. id_img img = id_img (b_newImages ?bt ! i))
                     (images s) \<noteq> Some p) \<longrightarrow>
                images s' ! p = images s ! p)))"
  proof (cases "\<exists>k<length (b_promises ?bt). k \<noteq> j \<and> b_promises ?bt ! k = None")
    case True
    then obtain k where "k < length (b_promises ?bt)" "k \<noteq> j" "b_promises ?bt ! k = None"
      by (auto simp del: not_None_eq)
    from step_Settle_pending [OF this, of r post] True show ?thesis
      by (simp only: if_True)
  next
    case False
    then have others: "\<forall>k<length (b_promises ?bt). k \<noteq> j \<longrightarrow> b_promises ?bt ! k \<noteq> None"
      by (auto simp del: not_None_eq)
    from step_Settle_last [OF assms j others, of r post]
    obtain s' where st: "step (Settle b j r post) s = Inr s'"
      and rec: "reconcile (images s) (b_newImages ?bt) (map the ?ps) = Inr (images s')"
      by blast
    have lr: "length (map the ?ps) = length (b_newImages ?bt)"
      using assms(2) by (simp add: wf_batch_def)
    have len: "length (images s') = length (images s)"
      using rec by (rule reconcile_length)
    have patched: "images s' ! p =
        (images s ! p)\<lparr>prediction := prediction (the (?ps ! i)),
                        error := error (the (?ps ! i)), isLoading := False\<rparr>"
      if "i < length (b_newImages ?bt)"
        "findIndex (\<lambda>img. id_img img = id_img (b_newImages ?bt ! i)) (images s) = Some p"
        "\<forall>i'<length (b_newImages ?bt). i < i' \<longrightarrow>
           findIndex (\<lambda>img. id_img img = id_img (b_newImages ?bt ! i')) (images s) \<noteq> Some p"
      for i p
    proof -
      have "i < length ?ps" using that(1) lr by simp
      then have "map the ?ps ! i = the (?ps ! i)" by (rule nth_map)
      with reconcile_nth_last [OF rec lr that] show ?thesis by simp
    qed
    have kept: "images s' ! p = images s ! p"
      if "p < length (images s)"
        "\<forall>i<length (b_newImages ?bt).
           findIndex (\<lambda>img. id_img img = id_img (b_newImages ?bt ! i)) (images s) \<noteq> Some p"
      for p
      using rec that by (rule reconcile_nth_none)
    have "length (images s') = length (images s) \<and>
            (\<forall>p<length (images s).
               (\<forall>i<length (b_newImages ?bt).
                  findIndex (\<lambda>img. id_img img = id_img (b_newImages ?bt ! i))
                    (images s) = Some p \<and>
                  (\<forall>i'<length (b_newImages ?bt). i < i' \<longrightarrow>
                     findIndex (\<lambda>img. id_img img = id_img (b_newImages ?bt ! i'))
                       (images s) \<noteq> Some p) \<longrightarrow>
                  images s' ! p =
                    (images s ! p)
                      \<lparr>prediction := prediction (the (?ps ! i)),
                       error := error (the (?ps ! i)),
                       isLoading := False\<rparr>) \<and>
               ((\<forall>i<length (b_newImages ?bt).
                   findIndex (\<lambda>img. id_img img = id_img (b_newImages ?bt ! i))
                     (images s) \<noteq> Some p) \<longrightarrow>
                images s' ! p = images s ! p))"
    proof (intro conjI allI impI)
      show "length (images s') = length (images s)" by (rule len)
    next
      fix p i
      assume "i < length (b_newImages ?bt)"
        and "findIndex (\<lambda>img. id_img img = id_img (b_newImages ?bt ! i)) (images s) = Some p \<and>
          (\<forall>i'<length (b_newImages ?bt). i < i' \<longrightarrow>
             findIndex (\<lambda>img. id_img img = id_img (b_newImages ?bt ! i')) (images s) \<noteq> Some p)"
      then show "images s' ! p =
          (images s ! p)\<lparr>prediction := prediction (the (?ps ! i)),
                          error := error (the (?ps ! i)), isLoading := False\<rparr>"
        by (intro patched) simp_all
    next
      fix p
      assume "p < length (images s)"
        and "\<forall>i<length (b_newImages ?bt).
           findIndex (\<lambda>img. id_img img = id_img (b_newImages ?bt ! i)) (images s) \<noteq> Some p"
      then show "images s' ! p = images s ! p" by (rule kept)
    qed
    with st False show ?thesis by (simp only: if_False) blast
  qed
qed

theorem batch_reconciled_when_last_pipeline_resolves_witness:
  "(\<exists>s'. step (Settle 0 1 ''0.i''
            (Response \<lparr>data_success = False, data_prediction = None,
                    data_error = Some ''blurry image''\<rparr>))
      \<lparr>images =
        [\<lparr>id_img = ''82mvyr'', image_img = ''blob:a'', prediction = None, error = None,
           isLoading = True\<rparr>,
         \<lparr>id_img = ''7c9d2e'', image_img = ''blob:b'', prediction = None, error = None,
           isLoading = True\<rparr>],
      batches =
        [\<lparr>b_files = [\<lparr>objectURL = ''blob:a'', dataURL = ''data:a''\<rparr>,
                     \<lparr>objectURL = ''blob:b'', dataURL = ''data:b''\<rparr>],
          b_newImages =
            [\<lparr>id_img = ''82mvyr'', image_img = ''blob:a'', prediction = None, error = None,
           isLoading = True\<rparr>,
             \<lparr>id_img = ''7c9d2e'', image_img = ''blob:b'', prediction = None, error = None,
           isLoading = True\<rparr>],
          b_promises = [None, None]\<rparr>]\<rparr> = Inr s' \<and>
      images s' =
        [\<lparr>id_img = ''82mvyr'', image_img = ''blob:a'', prediction = None, error = None,
           isLoading = True\<rparr>,
         \<lparr>id_img = ''7c9d2e'', image_img = ''blob:b'', prediction = None, error = None,
           isLoading = True\<rparr>]) \<and>
   (\<exists>s'. step (Settle 0 0 ''0.i''
            (Response \<lparr>data_success = True, data_prediction = Some ''cat'',
                    data_error = None\<rparr>))
      \<lparr>images =
        [\<lparr>id_img = ''82mvyr'', image_img = ''blob:a'', prediction = None, error = None,
           isLoading = True\<rparr>,
         \<lparr>id_img = ''7c9d2e'', image_img = ''blob:b'', prediction = None, error = None,
           isLoading = True\<rparr>],
      batches =
        [\<lparr>b_files = [\<lparr>objectURL = ''blob:a'', dataURL = ''data:a''\<rparr>,
                     \<lparr>objectURL = ''blob:b'', dataURL = ''data:b''\<rparr>],
          b_newImages =
            [\<lparr>id_img = ''82mvyr'', image_img = ''blob:a'', prediction = None, error = None,
           isLoading = True\<rparr>,
             \<lparr>id_img = ''7c9d2e'', image_img = ''blob:b'', prediction = None, error = None,
           isLoading = True\<rparr>],
          b_promises = [None, 
             Some \<lparr>id_img = [], image_img = ''data:b'', prediction = None,
                 error = Some ''blurry image'', isLoading = False\<rparr>]\<rparr>]\<rparr> = Inr s' \<and>
      images s' =
        [\<lparr>id_img = ''82mvyr'', image_img = ''blob:a'', prediction = Some ''cat'', error = None,
          isLoading = False\<rparr>,
         \<lparr>id_img = ''7c9d2e'', image_img = ''blob:b'', prediction = None,
          error = Some ''blurry image'', isLoading = False\<rparr>])"
proof -
  let ?a = "\<lparr>id_img = ''82mvyr'', image_img = ''blob:a'', prediction = None, error = None,
           isLoading = True\<rparr>"
  let ?b = "\<lparr>id_img = ''7c9d2e'', image_img = ''blob:b'', prediction = None, error = None,
           isLoading = True\<rparr>"
  let ?fa = "\<lparr>objectURL = ''blob:a'', dataURL = ''data:a''\<rparr>"
  let ?fb = "\<lparr>objectURL = ''blob:b'', dataURL = ''data:b''\<rparr>"
  let ?rb = "\<lparr>id_img = [], image_img = ''data:b'', prediction = None,
              error = Some ''blurry image'', isLoading = False\<rparr>"
  let ?postA = "Response \<lparr>data_success = True, data_prediction = Some ''cat'',
                          data_error = None\<rparr>"
  let ?postB = "Response \<lparr>data_success = False, data_prediction = None,
                          data_error = Some ''blurry image''\<rparr>"
  let ?s0 = "\<lparr>images = [?a, ?b],
              batches = [\<lparr>b_files = [?fa, ?fb], b_newImages = [?a, ?b],
                          b_promises = [None, None]\<rparr>]\<rparr>"
  let ?s1 = "\<lparr>images = [?a, ?b],
              batches = [\<lparr>b_files = [?fa, ?fb], b_newImages = [?a, ?b],
                          b_promises = [None, Some ?rb]\<rparr>]\<rparr>"
  have h0: "(0::nat) < length (batches ?s0)" "wf_batch (batches ?s0 ! 0)"
    by (simp_all add: wf_batch_def)
  have o0: "distinct [1::nat] \<and>
      (\<forall>j\<in>set [1::nat]. j < length (b_promises (batches ?s0 ! 0)) \<and>
                        b_promises (batches ?s0 ! 0) ! j = None) \<and>
      (\<exists>k<length (b_promises (batches ?s0 ! 0)).
          b_promises (batches ?s0 ! 0) ! k = None \<and> k \<notin> set [1::nat])"
    by (auto intro: exI [of _ 0])
  have j0: "1 < length (b_promises (batches ?s0 ! 0)) \<and> b_promises (batches ?s0 ! 0) ! 1 = None"
    by simp
  have p0: "\<exists>k<length (b_promises (batches ?s0 ! 0)).
      k \<noteq> 1 \<and> b_promises (batches ?s0 ! 0) ! k = None"
    by (rule exI [of _ 0]) simp
  note T0 = batch_reconciled_when_last_pipeline_resolves
    [OF h0, of "[1]" "\<lambda>j. ''0.i''" "\<lambda>j. ?postB" 1 "''0.i''" ?postB]
  from T0 [THEN conjunct1, THEN mp, OF o0]
  obtain t where t: "run ?s0 (map (\<lambda>j. Settle 0 j ''0.i'' ?postB) [1]) = Inr t"
    "images t = images ?s0" by blast
  from T0 [THEN conjunct2, THEN mp, OF j0]
  obtain s' where s': "step (Settle 0 1 ''0.i'' ?postB) ?s0 = Inr s'"
    and c0: "if \<exists>k<length (b_promises (batches ?s0 ! 0)).
               k \<noteq> 1 \<and> b_promises (batches ?s0 ! 0) ! k = None
          then images s' = images ?s0
          else length (images s') = length (images ?s0) \<and>
            (\<forall>p<length (images ?s0).
               (\<forall>i<length (b_newImages (batches ?s0 ! 0)).
                  findIndex (\<lambda>img. id_img img = id_img (b_newImages (batches ?s0 ! 0) ! i))
                    (images ?s0) = Some p \<and>
                  (\<forall>i'<length (b_newImages (batches ?s0 ! 0)). i < i' \<longrightarrow>
                     findIndex (\<lambda>img. id_img img = id_img (b_newImages (batches ?s0 ! 0) ! i'))
                       (images ?s0) \<noteq> Some p) \<longrightarrow>
                  images s' ! p =
                    (images ?s0 ! p)
                      \<lparr>prediction := prediction (the ((b_promises (batches ?s0 ! 0))
                          [1 := Some (processImage (b_files (batches ?s0 ! 0) ! 1) ''0.i'' ?postB)] ! i)),
                       error := error (the ((b_promises (batches ?s0 ! 0))
                          [1 := Some (processImage (b_files (batches ?s0 ! 0) ! 1) ''0.i'' ?postB)] ! i)),
                       isLoading := False\<rparr>) \<and>
               ((\<forall>i<length (b_newImages (batches ?s0 ! 0)).
                   findIndex (\<lambda>img. id_img img = id_img (b_newImages (batches ?s0 ! 0) ! i))
                     (images ?s0) \<noteq> Some p) \<longrightarrow>
                images s' ! p = images ?s0 ! p))"
    by blast
  from c0 p0 have "images s' = images ?s0" by (simp only: if_True)
  with s' have first: "\<exists>s'. step (Settle 0 1 ''0.i'' ?postB) ?s0 = Inr s' \<and> images s' = [?a, ?b]"
    by (auto simp del: step.simps)
  have h1: "(0::nat) < length (batches ?s1)" "wf_batch (batches ?s1 ! 0)"
    by (simp_all add: wf_batch_def)
  have j1: "0 < length (b_promises (batches ?s1 ! 0)) \<and> b_promises (batches ?s1 ! 0) ! 0 = None"
    by simp
  have p1: "\<not> (\<exists>k<length (b_promises (batches ?s1 ! 0)).
      k \<noteq> 0 \<and> b_promises (batches ?s1 ! 0) ! k = None)"
    by (auto simp: less_Suc_eq numeral_2_eq_2)
  note T1 = batch_reconciled_when_last_pipeline_resolves
    [OF h1, of "[]" "\<lambda>j. ''0.i''" "\<lambda>j. ?postA" 0 "''0.i''" ?postA]
  from T1 [THEN conjunct2, THEN mp, OF j1]
  obtain u where u: "step (Settle 0 0 ''0.i'' ?postA) ?s1 = Inr u"
    and c1: "if \<exists>k<length (b_promises (batches ?s1 ! 0)).
               k \<noteq> 0 \<and> b_promises (batches ?s1 ! 0) ! k = None
          then images u = images ?s1
          else length (images u) = length (images ?s1) \<and>
            (\<forall>p<length (images ?s1).
               (\<forall>i<length (b_newImages (batches ?s1 ! 0)).
                  findIndex (\<lambda>img. id_img img = id_img (b_newImages (batches ?s1 ! 0) ! i))
                    (images ?s1) = Some p \<and>
                  (\<forall>i'<length (b_newImages (batches ?s1 ! 0)). i < i' \<longrightarrow>
                     findIndex (\<lambda>img. id_img img = id_img (b_newImages (batches ?s1 ! 0) ! i'))
                       (images ?s1) \<noteq> Some p) \<longrightarrow>
                  images u ! p =
                    (images ?s1 ! p)
                      \<lparr>prediction := prediction (the ((b_promises (batches ?s1 ! 0))
                          [0 := Some (processImage (b_files (batches ?s1 ! 0) ! 0) ''0.i'' ?postA)] ! i)),
                       error := error (the ((b_promises (batches ?s1 ! 0))
                          [0 := Some (processImage (b_files (batches ?s1 ! 0) ! 0) ''0.i'' ?postA)] ! i)),
                       isLoading := False\<rparr>) \<and>
               ((\<forall>i<length (b_newImages (batches ?s1 ! 0)).
                   findIndex (\<lambda>img. id_img img = id_img (b_newImages (batches ?s1 ! 0) ! i))
                     (images ?s1) \<noteq> Some p) \<longrightarrow>
                images u ! p = images ?s1 ! p))"
    by blast
  from c1 have c: "length (images u) = length (images ?s1) \<and>
            (\<forall>p<length (images ?s1).
               (\<forall>i<length (b_newImages (batches ?s1 ! 0)).
                  findIndex (\<lambda>img. id_img img = id_img (b_newImages (batches ?s1 ! 0) ! i))
                    (images ?s1) = Some p \<and>
                  (\<forall>i'<length (b_newImages (batches ?s1 ! 0)). i < i' \<longrightarrow>
                     findIndex (\<lambda>img. id_img img = id_img (b_newImages (batches ?s1 ! 0) ! i'))
                       (images ?s1) \<noteq> Some p) \<longrightarrow>
                  images u ! p =
                    (images ?s1 ! p)
                      \<lparr>prediction := prediction (the ((b_promises (batches ?s1 ! 0))
                          [0 := Some (processImage (b_files (batches ?s1 ! 0) ! 0) ''0.i'' ?postA)] ! i)),
                       error := error (the ((b_promises (batches ?s1 ! 0))
                          [0 := Some (processImage (b_files (batches ?s1 ! 0) ! 0) ''0.i'' ?postA)] ! i)),
                       isLoading := False\<rparr>) \<and>
               ((\<forall>i<length (b_newImages (batches ?s1 ! 0)).
                   findIndex (\<lambda>img. id_img img = id_img (b_newImages (batches ?s1 ! 0) ! i))
                     (images ?s1) \<noteq> Some p) \<longrightarrow>
                images u ! p = images ?s1 ! p))"
    unfolding if_not_P [OF p1] .
  from c [THEN conjunct1] have len: "length (images u) = 2" by simp
  from c [THEN conjunct2, rule_format, of 0, THEN conjunct1, rule_format, of 0]
  have u0: "images u ! 0 =
      \<lparr>id_img = ''82mvyr'', image_img = ''blob:a'', prediction = Some ''cat'', error = None,
        isLoading = False\<rparr>"
    by (simp add: processImage_def less_Suc_eq numeral_2_eq_2)
  from c [THEN conjunct2, rule_format, of 1, THEN conjunct1, rule_format, of 1]
  have u1: "images u ! 1 =
      \<lparr>id_img = ''7c9d2e'', image_img = ''blob:b'', prediction = None,
        error = Some ''blurry image'', isLoading = False\<rparr>"
    by (simp add: less_Suc_eq numeral_2_eq_2)
  from len u0 u1 have "images u =
        [\<lparr>id_img = ''82mvyr'', image_img = ''blob:a'', prediction = Some ''cat'', error = None,
          isLoading = False\<rparr>,
         \<lparr>id_img = ''7c9d2e'', image_img = ''blob:b'', prediction = None,
          error = Some ''blurry image'', isLoading = False\<rparr>]"
    by (intro nth_equalityI) (auto simp: less_Suc_eq numeral_2_eq_2)
  with u have second: "\<exists>s'. step (Settle 0 0 ''0.i'' ?postA) ?s1 = Inr s' \<and> images s' =
        [\<lparr>id_img = ''82mvyr'', image_img = ''blob:a'', prediction = Some ''cat'', error = None,
          isLoading = False\<rparr>,
         \<lparr>id_img = ''7c9d2e'', image_img = ''blob:b'', prediction = None,
          error = Some ''blurry image'', isLoading = False\<rparr>]"
    by (auto simp del: step.simps)
  from first second show ?thesis by (intro conjI)
qed

text \<open>
  Claim C3, as the claim states it, fails: two files selected together draw 0.25 and 0.75,
  whose renderings \<open>0.9\<close> and \<open>0.r\<close> both give the empty \<open>id\<close>. The second file resolves
  first (a service error), then the first (a label). Both results are written to the first
  item, which ends with the second file's outcome; the second item stays loading.
\<close>

theorem colliding_ids_misattribute_counterexample:
  "run init
     [Upload [(\<lparr>objectURL = ''blob:a'', dataURL = ''data:a''\<rparr>, ''0.9''),
              (\<lparr>objectURL = ''blob:b'', dataURL = ''data:b''\<rparr>, ''0.r'')],
      Settle 0 1 ''0.i''
        (Response \<lparr>data_success = False, data_prediction = None,
                   data_error = Some ''blurry image''\<rparr>),
      Settle 0 0 ''0.i''
        (Response \<lparr>data_success = True, data_prediction = Some ''cat'', data_error = None\<rparr>)] =
   Inr \<lparr>images =
          [\<lparr>id_img = [], image_img = ''blob:a'', prediction = None,
            error = Some ''blurry image'', isLoading = False\<rparr>,
           \<lparr>id_img = [], image_img = ''blob:b'', prediction = None, error = None,
            isLoading = True\<rparr>],
        batches =
          [\<lparr>b_files = [\<lparr>objectURL = ''blob:a'', dataURL = ''data:a''\<rparr>,
                       \<lparr>objectURL = ''blob:b'', dataURL = ''data:b''\<rparr>],
            b_newImages =
              [\<lparr>id_img = [], image_img = ''blob:a'', prediction = None, error = None,
                isLoading = True\<rparr>,
               \<lparr>id_img = [], image_img = ''blob:b'', prediction = None, error = None,
                isLoading = True\<rparr>],
            b_promises =
              [Some \<lparr>id_img = [], image_img = ''data:a'', prediction = Some ''cat'',
                     error = None, isLoading = False\<rparr>,
               Some \<lparr>id_img = [], image_img = ''data:b'', prediction = None,
                     error = Some ''blurry image'', isLoading = False\<rparr>]\<rparr>]\<rparr>"
  by (simp add: init_def newImages_def random_id_def substring_def processImage_def js_or_def
      reconcile_def reconcile_result_def)

text \<open>
  Claim C3, amended. Let the placeholder ids of a batch be pairwise distinct and the ids in
  the store be pairwise distinct. Then, in whatever order the pipelines of the batch
  resolve, the store item that carries the \<open>id\<close> of the \<open>i\<close>-th placeholder ends with the
  prediction and error of the \<open>i\<close>-th file's result and is no longer loading, and the items
  whose \<open>id\<close> is not one of the batch are left as they were.
\<close>

theorem outcome_lands_on_own_id_in_any_order:
  assumes "b < length (batches s)" "wf_batch (batches s ! b)"
    "b_promises (batches s ! b) = replicate n None"
    "distinct order" "set order = {0..<n}"
    "distinct (map id_img (b_newImages (batches s ! b)))"
    "distinct (map id_img (images s))"
  shows "\<exists>s'. run s (map (\<lambda>j. Settle b j (rnd j) (post j)) order) = Inr s' \<and>
     length (images s') = length (images s) \<and>
     (\<forall>i<n. \<forall>p<length (images s).
        id_img (images s ! p) = id_img (b_newImages (batches s ! b) ! i) \<longrightarrow>
        images s' ! p =
          (images s ! p)
            \<lparr>prediction := prediction (processImage (b_files (batches s ! b) ! i) (rnd i) (post i)),
             error := error (processImage (b_files (batches s ! b) ! i) (rnd i) (post i)),
             isLoading := False\<rparr>) \<and>
     (\<forall>p<length (images s).
        id_img (images s ! p) \<notin> id_img ` set (b_newImages (batches s ! b)) \<longrightarrow>
        images s' ! p = images s ! p)"
proof (cases "n = 0")
  case True
  with assms(5) have "order = []" by simp
  with True show ?thesis by simp
next
  case False
  let ?bt = "batches s ! b"
  let ?res = "\<lambda>j. processImage (b_files ?bt ! j) (rnd j) (post j)"
  let ?results = "map ?res [0..<n]"
  have len: "length (b_promises ?bt) = n" by (simp add: assms(3))
  from False assms(5) have ne: "order \<noteq> []" by auto
  have pend: "set order = {j. j < length (b_promises ?bt) \<and> b_promises ?bt ! j = None}"
    unfolding assms(3) assms(5) by (rule set_eqI) (simp cong: conj_cong)
  have fin: "map (\<lambda>j. case b_promises ?bt ! j of None \<Rightarrow> ?res j | Some x \<Rightarrow> x)
               [0..<length (b_promises ?bt)] = ?results"
    unfolding assms(3) by simp
  from settle_order [OF assms(1,2,4) ne pend, of rnd post]
  obtain s' where run: "run s (map (\<lambda>j. Settle b j (rnd j) (post j)) order) = Inr s'"
    and rec: "reconcile (images s) (b_newImages ?bt) ?results = Inr (images s')"
    unfolding fin by blast
  have lr: "length ?results = length (b_newImages ?bt)"
    using assms(2) len by (simp add: wf_batch_def)
  have "length (images s') = length (images s)"
    using rec by (rule reconcile_length)
  moreover have "images s' ! p =
      (images s ! p)\<lparr>prediction := prediction (?res i), error := error (?res i),
                      isLoading := False\<rparr>"
    if "i < n" "p < length (images s)" "id_img (images s ! p) = id_img (b_newImages ?bt ! i)"
    for i p
  proof -
    have "findIndex (\<lambda>img. id_img img = id_img (images s ! p)) (images s) = Some p"
      using assms(7) that(2) by (rule findIndex_distinct)
    then have f: "findIndex (\<lambda>img. id_img img = id_img (b_newImages ?bt ! i)) (images s) = Some p"
      by (simp only: that(3))
    have i: "i < length (b_newImages ?bt)" using that(1) lr by simp
    from reconcile_attrib [OF rec lr assms(6) i f] that(1) show ?thesis by simp
  qed
  moreover have "images s' ! p = images s ! p"
    if "p < length (images s)" "id_img (images s ! p) \<notin> id_img ` set (b_newImages ?bt)" for p
    using rec that by (rule reconcile_untouched)
  ultimately show ?thesis using run by (intro exI [of _ s'] conjI allI impI) simp_all
qed

theorem outcome_lands_on_own_id_in_any_order_witness:
  "distinct [1, 0::nat] \<and> set [1, 0::nat] = {0..<2} \<and>
   (\<exists>s'. run
      \<lparr>images =
        [\<lparr>id_img = ''82mvyr'', image_img = ''blob:a'', prediction = None, error = None,
          isLoading = True\<rparr>,
         \<lparr>id_img = ''7c9d2e'', image_img = ''blob:b'', prediction = None, error = None,
          isLoading = True\<rparr>],
      batches =
        [\<lparr>b_files = [\<lparr>objectURL = ''blob:a'', dataURL = ''data:a''\<rparr>,
                     \<lparr>objectURL = ''blob:b'', dataURL = ''data:b''\<rparr>],
          b_newImages =
            [\<lparr>id_img = ''82mvyr'', image_img = ''blob:a'', prediction = None, error = None,
              isLoading = True\<rparr>,
             \<lparr>id_img = ''7c9d2e'', image_img = ''blob:b'', prediction = None, error = None,
              isLoading = True\<rparr>],
          b_promises = [None, None]\<rparr>]\<rparr>
      (map (\<lambda>j. Settle 0 j ''0.i''
             ((\<lambda>j. if j = 0
              then Response \<lparr>data_success = True, data_prediction = Some ''cat'',
                              data_error = None\<rparr>
              else Response \<lparr>data_success = False, data_prediction = None,
                              data_error = Some ''blurry image''\<rparr>) j)) [1, 0]) = Inr s' \<and>
      images s' =
        [\<lparr>id_img = ''82mvyr'', image_img = ''blob:a'', prediction = Some ''cat'', error = None,
          isLoading = False\<rparr>,
         \<lparr>id_img = ''7c9d2e'', image_img = ''blob:b'', prediction = None,
          error = Some ''blurry image'', isLoading = False\<rparr>])"
proof -
  let ?s = "\<lparr>images =
          [\<lparr>id_img = ''82mvyr'', image_img = ''blob:a'', prediction = None, error = None,
            isLoading = True\<rparr>,
           \<lparr>id_img = ''7c9d2e'', image_img = ''blob:b'', prediction = None, error = None,
            isLoading = True\<rparr>],
        batches =
          [\<lparr>b_files = [\<lparr>objectURL = ''blob:a'', dataURL = ''data:a''\<rparr>,
                       \<lparr>objectURL = ''blob:b'', dataURL = ''data:b''\<rparr>],
            b_newImages =
              [\<lparr>id_img = ''82mvyr'', image_img = ''blob:a'', prediction = None, error = None,
                isLoading = True\<rparr>,
               \<lparr>id_img = ''7c9d2e'', image_img = ''blob:b'', prediction = None, error = None,
                isLoading = True\<rparr>],
            b_promises = [None, None]\<rparr>]\<rparr>"
  let ?post = "(\<lambda>j. if j = 0
              then Response \<lparr>data_success = True, data_prediction = Some ''cat'',
                              data_error = None\<rparr>
              else Response \<lparr>data_success = False, data_prediction = None,
                              data_error = Some ''blurry image''\<rparr>)"
  have h: "(0::nat) < length (batches ?s)" "wf_batch (batches ?s ! 0)"
    "b_promises (batches ?s ! 0) = replicate 2 None"
    "distinct [1, 0::nat]" "set [1, 0::nat] = {0..<2}"
    "distinct (map id_img (b_newImages (batches ?s ! 0)))"
    "distinct (map id_img (images ?s))"
    by (auto simp: wf_batch_def numeral_2_eq_2)
  from outcome_lands_on_own_id_in_any_order [OF h, of "\<lambda>j. ''0.i''" ?post]
  obtain s' where run: "run ?s (map (\<lambda>j. Settle 0 j ''0.i'' (?post j)) [1, 0]) = Inr s'"
    and len: "length (images s') = length (images ?s)"
    and att: "\<forall>i<2. \<forall>p<length (images ?s).
        id_img (images ?s ! p) = id_img (b_newImages (batches ?s ! 0) ! i) \<longrightarrow>
        images s' ! p =
          (images ?s ! p)
            \<lparr>prediction := prediction (processImage (b_files (batches ?s ! 0) ! i) ''0.i'' (?post i)),
             error := error (processImage (b_files (batches ?s ! 0) ! i) ''0.i'' (?post i)),
             isLoading := False\<rparr>"
    by blast
  from att [rule_format, of 0 0] have a0: "images s' ! 0 =
      \<lparr>id_img = ''82mvyr'', image_img = ''blob:a'', prediction = Some ''cat'', error = None,
        isLoading = False\<rparr>"
    by (simp add: processImage_def)
  from att [rule_format, of 1 1] have a1: "images s' ! 1 =
      \<lparr>id_img = ''7c9d2e'', image_img = ''blob:b'', prediction = None,
        error = Some ''blurry image'', isLoading = False\<rparr>"
    by (simp add: processImage_def js_or_def)
  from len have "length (images s') = 2" by simp
  with a0 a1 have "images s' =
        [\<lparr>id_img = ''82mvyr'', image_img = ''blob:a'', prediction = Some ''cat'', error = None,
          isLoading = False\<rparr>,
         \<lparr>id_img = ''7c9d2e'', image_img = ''blob:b'', prediction = None,
          error = Some ''blurry image'', isLoading = False\<rparr>]"
    by (intro nth_equalityI) (auto simp: less_Suc_eq numeral_2_eq_2)
  with run h(4,5) show ?thesis by blast
qed

text \<open>
  Claim C5, as the claim states it, fails: two files selected together draw 0.25 and 0.75;
  the renderings \<open>0.9\<close> and \<open>0.r\<close> are shorter than seven characters, so both placeholders
  get the empty \<open>id\<close> and the store holds two live items with the same \<open>id\<close>.
\<close>

theorem placeholder_ids_collide_counterexample:
  "run init
     [Upload [(\<lparr>objectURL = ''blob:a'', dataURL = ''data:a''\<rparr>, ''0.9''),
              (\<lparr>objectURL = ''blob:b'', dataURL = ''data:b''\<rparr>, ''0.r'')]] =
   Inr \<lparr>images =
          [\<lparr>id_img = [], image_img = ''blob:a'', prediction = None, error = None,
            isLoading = True\<rparr>,
           \<lparr>id_img = [], image_img = ''blob:b'', prediction = None, error = None,
            isLoading = True\<rparr>],
        batches =
          [\<lparr>b_files = [\<lparr>objectURL = ''blob:a'', dataURL = ''data:a''\<rparr>,
                       \<lparr>objectURL = ''blob:b'', dataURL = ''data:b''\<rparr>],
            b_newImages =
              [\<lparr>id_img = [], image_img = ''blob:a'', prediction = None, error = None,
                isLoading = True\<rparr>,
               \<lparr>id_img = [], image_img = ''blob:b'', prediction = None, error = None,
                isLoading = True\<rparr>],
            b_promises = [None, None]\<rparr>]\<rparr> \<and>
   \<not> distinct (map id_img
          [\<lparr>id_img = [], image_img = ''blob:a'', prediction = None, error = None,
            isLoading = True\<rparr>,
           \<lparr>id_img = [], image_img = ''blob:b'', prediction = None, error = None,
            isLoading = True\<rparr>])"
  by (simp add: init_def newImages_def random_id_def substring_def)

text \<open>
  Claim C5, amended. The \<open>id\<close> of a placeholder is the rendering of its random draw from
  index 7 on, and nothing compares it with the ids in use. The ids of the live items stay
  pairwise distinct across an event provided that, when the event is an upload, the ids it
  draws are pairwise distinct and none of them is in the store; the only ids an event
  brings into the store are those an upload draws. The store starts empty.
\<close>

theorem ids_distinct_while_draws_are_fresh:
  assumes "distinct (map id_img (images s))" "step e s = Inr s'"
    "\<forall>picks. e = Upload picks \<longrightarrow>
       distinct (map (random_id \<circ> snd) picks) \<and>
       (random_id \<circ> snd) ` set picks \<inter> id_img ` set (images s) = {}"
  shows "distinct (map id_img (images s')) \<and>
     id_img ` set (images s') \<subseteq>
       id_img ` set (images s) \<union>
       (case e of Upload picks \<Rightarrow> set (map (\<lambda>(f, r). drop 7 r) picks) | _ \<Rightarrow> {}) \<and>
     map id_img (newImages picks') = map (\<lambda>(f, r). drop 7 r) picks' \<and>
     images init = []"
proof -
  have ids: "map id_img (newImages picks) = map (random_id \<circ> snd) picks" for picks
    by (simp add: newImages_def split_beta comp_def)
  have ids': "map (random_id \<circ> snd) picks = map (\<lambda>(f, r). drop 7 r) picks"
    for picks :: "(File \<times> rand36) list"
    by (simp add: random_id_def substring_def split_beta comp_def)
  have new: "map id_img (newImages picks') = map (\<lambda>(f, r). drop 7 r) picks'"
    by (simp only: ids ids')
  have "distinct (map id_img (images s')) \<and>
     id_img ` set (images s') \<subseteq>
       id_img ` set (images s) \<union>
       (case e of Upload picks \<Rightarrow> set (map (\<lambda>(f, r). drop 7 r) picks) | _ \<Rightarrow> {})"
  proof (cases e)
    case (Upload picks)
    show ?thesis
    proof (cases "picks = []")
      case True
      with assms(1,2) Upload show ?thesis by simp
    next
      case False
      with assms(2) Upload have im: "images s' = images s @ newImages picks" by auto
      from assms(3) Upload have d: "distinct (map (random_id \<circ> snd) picks)"
        and i: "(random_id \<circ> snd) ` set picks \<inter> id_img ` set (images s) = {}" by simp_all
      have "set (map id_img (images s)) \<inter> set (map (random_id \<circ> snd) picks) = {}"
        using i by (simp only: set_map) blast
      with assms(1) d have "distinct (map id_img (images s'))"
        by (simp only: im map_append ids distinct_append simp_thms)
      moreover have "id_img ` set (images s') =
          id_img ` set (images s) \<union> set (map (\<lambda>(f, r). drop 7 r) picks)"
        unfolding im using ids [of picks] ids' [of picks]
        by (simp only: set_append image_Un flip: set_map)
      ultimately show ?thesis using Upload by simp
    qed
  next
    case (Settle b j r post)
    from step_Settle_cases [OF assms(2) [unfolded Settle]]
    have "map id_img (images s') = map id_img (images s)"
      by (auto dest: reconcile_InrD)
    then have "distinct (map id_img (images s'))"
      "id_img ` set (images s') = id_img ` set (images s)"
      using assms(1) by (simp_all flip: set_map)
    with Settle show ?thesis by simp
  next
    case (Remove k)
    with assms(2) have im: "images s' = removeImage k (images s)" by auto
    have "distinct (map id_img (images s'))"
      unfolding im removeImage_def using assms(1) by (rule distinct_map_filter)
    moreover have "id_img ` set (images s') \<subseteq> id_img ` set (images s)"
      unfolding im removeImage_def by auto
    ultimately show ?thesis using Remove by simp
  next
    case Reset
    with assms(2) have "images s' = []" by auto
    with Reset show ?thesis by simp
  qed
  with new show ?thesis by (simp add: init_def)
qed

theorem ids_distinct_while_draws_are_fresh_witness:
  "distinct (map id_img
     [\<lparr>id_img = ''82mvyr'', image_img = ''blob:a'', prediction = None, error = None,
       isLoading = True\<rparr>]) \<and>
   step (Upload [(\<lparr>objectURL = ''blob:b'', dataURL = ''data:b''\<rparr>, ''0.8kq1x7c9d2e'')])
     \<lparr>images = [\<lparr>id_img = ''82mvyr'', image_img = ''blob:a'', prediction = None,
                  error = None, isLoading = True\<rparr>],
      batches = []\<rparr> =
   Inr \<lparr>images = [\<lparr>id_img = ''82mvyr'', image_img = ''blob:a'', prediction = None,
                      error = None, isLoading = True\<rparr>,
                    \<lparr>id_img = ''7c9d2e'', image_img = ''blob:b'', prediction = None,
                      error = None, isLoading = True\<rparr>],
        batches = [\<lparr>b_files = [\<lparr>objectURL = ''blob:b'', dataURL = ''data:b''\<rparr>],
                    b_newImages = [\<lparr>id_img = ''7c9d2e'', image_img = ''blob:b'',
                                    prediction = None, error = None, isLoading = True\<rparr>],
                    b_promises = [None]\<rparr>]\<rparr> \<and>
   distinct (map id_img
     [\<lparr>id_img = ''82mvyr'', image_img = ''blob:a'', prediction = None, error = None,
       isLoading = True\<rparr>,
      \<lparr>id_img = ''7c9d2e'', image_img = ''blob:b'', prediction = None, error = None,
       isLoading = True\<rparr>])"
proof -
  let ?a = "\<lparr>id_img = ''82mvyr'', image_img = ''blob:a'', prediction = None, error = None,
             isLoading = True\<rparr>"
  let ?b = "\<lparr>id_img = ''7c9d2e'', image_img = ''blob:b'', prediction = None, error = None,
             isLoading = True\<rparr>"
  let ?f = "\<lparr>objectURL = ''blob:b'', dataURL = ''data:b''\<rparr>"
  let ?s = "\<lparr>images = [?a], batches = []\<rparr>"
  let ?s' = "\<lparr>images = [?a, ?b],
              batches = [\<lparr>b_files = [?f], b_newImages = [?b], b_promises = [None]\<rparr>]\<rparr>"
  let ?e = "Upload [(?f, ''0.8kq1x7c9d2e'')]"
  have h1: "distinct (map id_img (images ?s))" by simp
  have h2: "step ?e ?s = Inr ?s'"
    by (simp add: newImages_def random_id_def substring_def)
  have h3: "\<forall>picks. ?e = Upload picks \<longrightarrow>
       distinct (map (random_id \<circ> snd) picks) \<and>
       (random_id \<circ> snd) ` set picks \<inter> id_img ` set (images ?s) = {}"
    by (simp add: random_id_def substring_def)
  from ids_distinct_while_draws_are_fresh [OF h1 h2 h3, of "[(?f, ''0.8kq1x7c9d2e'')]"] h1 h2
  show ?thesis by simp
qed

text \<open>
  Claim C6, as the claim states it, fails: two uploads of one file each draw 0.25 and 0.75
  and so both get the empty \<open>id\<close>. Both pipelines resolve, the second upload's first. Each
  result is written to the first item; the second item is still loading when no pipeline
  is left to end its loading, so it never makes the transition.
\<close>

theorem item_stays_loading_counterexample:
  "run init
     [Upload [(\<lparr>objectURL = ''blob:a'', dataURL = ''data:a''\<rparr>, ''0.9'')],
      Upload [(\<lparr>objectURL = ''blob:b'', dataURL = ''data:b''\<rparr>, ''0.r'')],
      Settle 1 0 ''0.i''
        (Response \<lparr>data_success = True, data_prediction = Some ''dog'', data_error = None\<rparr>),
      Settle 0 0 ''0.i''
        (Response \<lparr>data_success = True, data_prediction = Some ''cat'', data_error = None\<rparr>)] =
   Inr \<lparr>images =
          [\<lparr>id_img = [], image_img = ''blob:a'', prediction = Some ''cat'', error = None,
            isLoading = False\<rparr>,
           \<lparr>id_img = [], image_img = ''blob:b'', prediction = None, error = None,
            isLoading = True\<rparr>],
        batches =
          [\<lparr>b_files = [\<lparr>objectURL = ''blob:a'', dataURL = ''data:a''\<rparr>],
            b_newImages =
              [\<lparr>id_img = [], image_img = ''blob:a'', prediction = None, error = None,
                isLoading = True\<rparr>],
            b_promises =
              [Some \<lparr>id_img = [], image_img = ''data:a'', prediction = Some ''cat'',
                     error = None, isLoading = False\<rparr>]\<rparr>,
           \<lparr>b_files = [\<lparr>objectURL = ''blob:b'', dataURL = ''data:b''\<rparr>],
            b_newImages =
              [\<lparr>id_img = [], image_img = ''blob:b'', prediction = None, error = None,
                isLoading = True\<rparr>],
            b_promises =
              [Some \<lparr>id_img = [], image_img = ''data:b'', prediction = Some ''dog'',
                     error = None, isLoading = False\<rparr>]\<rparr>]\<rparr>"
  by (simp add: init_def newImages_def random_id_def substring_def processImage_def
      reconcile_def reconcile_result_def)

text \<open>
  Claim C6, amended. A placeholder is created loading, with neither a prediction nor an
  error, and in every state reached from the empty store a loading item has neither. No
  event turns \<open>isLoading\<close> from false to true: the end of a pipeline keeps the length of
  the store and leaves every item that is loading afterwards exactly as it was, and the
  other events only keep items unchanged, drop them or append new placeholders. So an
  item leaves loading at most once. When the last pipeline of a batch resolves, no item
  of the store that carries the \<open>id\<close> of a placeholder of that batch is loading
  afterwards, provided the ids in the store are pairwise distinct; such an item need not
  be one that this batch created, since an \<open>id\<close> may be drawn again.
\<close>

theorem loading_is_exclusive_and_never_returns:
  "(run init es = Inr s \<longrightarrow>
      (\<forall>x\<in>set (images s). isLoading x \<longrightarrow> prediction x = None \<and> error x = None)) \<and>
   (\<forall>x\<in>set (newImages picks). isLoading x \<and> prediction x = None \<and> error x = None) \<and>
   (step (Settle b j r post) t = Inr t' \<longrightarrow>
      length (images t') = length (images t) \<and>
      (\<forall>p<length (images t). isLoading (images t' ! p) \<longrightarrow> images t' ! p = images t ! p)) \<and>
   (step e u = Inr u' \<and> (\<forall>b j r post. e \<noteq> Settle b j r post) \<longrightarrow>
      (\<forall>y\<in>set (images u').
         y \<in> set (images u) \<or> (\<exists>picks. e = Upload picks \<and> y \<in> set (newImages picks)))) \<and>
   (b < length (batches t) \<and> wf_batch (batches t ! b) \<and>
    j < length (b_promises (batches t ! b)) \<and> b_promises (batches t ! b) ! j = None \<and>
    (\<forall>k<length (b_promises (batches t ! b)). k \<noteq> j \<longrightarrow> b_promises (batches t ! b) ! k \<noteq> None) \<and>
    distinct (map id_img (images t)) \<and> step (Settle b j r post) t = Inr t' \<longrightarrow>
      (\<forall>p<length (images t).
         id_img (images t ! p) \<in> id_img ` set (b_newImages (batches t ! b)) \<longrightarrow>
         \<not> isLoading (images t' ! p)))"
proof (intro conjI impI)
  assume "run init es = Inr s"
  moreover have "\<forall>x\<in>set (images init). isLoading x \<longrightarrow> prediction x = None \<and> error x = None"
    by (simp add: init_def)
  ultimately show "\<forall>x\<in>set (images s). isLoading x \<longrightarrow> prediction x = None \<and> error x = None"
    by (rule run_loading_inv [rotated])
next
  show "\<forall>x\<in>set (newImages picks). isLoading x \<and> prediction x = None \<and> error x = None"
    by (rule newImages_loading)
next
  assume st: "step (Settle b j r post) t = Inr t'"
  from step_Settle_nth [OF st] show "length (images t') = length (images t)" by simp
  from step_Settle_nth [OF st]
  show "\<forall>p<length (images t). isLoading (images t' ! p) \<longrightarrow> images t' ! p = images t ! p"
    by simp
next
  assume "step e u = Inr u' \<and> (\<forall>b j r post. e \<noteq> Settle b j r post)"
  then have "step e u = Inr u'" "\<forall>b j r post. e \<noteq> Settle b j r post"
    by (simp_all del: step.simps)
  then show "\<forall>y\<in>set (images u').
         y \<in> set (images u) \<or> (\<exists>picks. e = Upload picks \<and> y \<in> set (newImages picks))"
    by (rule step_other_items)
next
  assume a: "b < length (batches t) \<and> wf_batch (batches t ! b) \<and>
    j < length (b_promises (batches t ! b)) \<and> b_promises (batches t ! b) ! j = None \<and>
    (\<forall>k<length (b_promises (batches t ! b)). k \<noteq> j \<longrightarrow> b_promises (batches t ! b) ! k \<noteq> None) \<and>
    distinct (map id_img (images t)) \<and> step (Settle b j r post) t = Inr t'"
  let ?bt = "batches t ! b"
  let ?results = "map the ((b_promises ?bt)[j := Some (processImage (b_files ?bt ! j) r post)])"
  from a have h: "b < length (batches t)" "wf_batch ?bt" "j < length (b_promises ?bt)"
    "b_promises ?bt ! j = None"
    "\<forall>k<length (b_promises ?bt). k \<noteq> j \<longrightarrow> b_promises ?bt ! k \<noteq> None"
    and d: "distinct (map id_img (images t))" and st: "step (Settle b j r post) t = Inr t'"
    by (simp_all del: step.simps)
  from step_Settle_last [OF h, of r post] st
  have rec: "reconcile (images t) (b_newImages ?bt) ?results = Inr (images t')"
    by (auto simp del: step.simps)
  have lr: "length ?results = length (b_newImages ?bt)"
    using h(2) by (simp add: wf_batch_def)
  show "\<forall>p<length (images t).
         id_img (images t ! p) \<in> id_img ` set (b_newImages ?bt) \<longrightarrow> \<not> isLoading (images t' ! p)"
    using reconcile_patched [OF rec lr d] by blast
qed

theorem loading_is_exclusive_and_never_returns_witness:
  "run init [Upload [(\<lparr>objectURL = ''blob:a'', dataURL = ''data:a''\<rparr>, ''0.4fzyo82mvyr'')]] =
   Inr \<lparr>images =
          [\<lparr>id_img = ''82mvyr'', image_img = ''blob:a'', prediction = None, error = None,
            isLoading = True\<rparr>],
        batches =
          [\<lparr>b_files = [\<lparr>objectURL = ''blob:a'', dataURL = ''data:a''\<rparr>],
            b_newImages =
              [\<lparr>id_img = ''82mvyr'', image_img = ''blob:a'', prediction = None, error = None,
            isLoading = True\<rparr>],
            b_promises = [None]\<rparr>]\<rparr> \<and>
   (\<exists>t'. step (Settle 0 0 ''0.i'' (Response \<lparr>data_success = True, data_prediction = Some ''cat'', data_error = None\<rparr>))
      \<lparr>images =
        [\<lparr>id_img = ''82mvyr'', image_img = ''blob:a'', prediction = None, error = None,
          isLoading = True\<rparr>],
      batches =
        [\<lparr>b_files = [\<lparr>objectURL = ''blob:a'', dataURL = ''data:a''\<rparr>],
          b_newImages =
            [\<lparr>id_img = ''82mvyr'', image_img = ''blob:a'', prediction = None, error = None,
          isLoading = True\<rparr>],
          b_promises = [None]\<rparr>]\<rparr> = Inr t' \<and>
      length (images t') = 1 \<and> \<not> isLoading (images t' ! 0)) \<and>
   step (Remove ''82mvyr'')
      \<lparr>images =
        [\<lparr>id_img = ''82mvyr'', image_img = ''blob:a'', prediction = None, error = None,
          isLoading = True\<rparr>],
      batches =
        [\<lparr>b_files = [\<lparr>objectURL = ''blob:a'', dataURL = ''data:a''\<rparr>],
          b_newImages =
            [\<lparr>id_img = ''82mvyr'', image_img = ''blob:a'', prediction = None, error = None,
          isLoading = True\<rparr>],
          b_promises = [None]\<rparr>]\<rparr> =
   Inr \<lparr>images = [],
        batches =
          [\<lparr>b_files = [\<lparr>objectURL = ''blob:a'', dataURL = ''data:a''\<rparr>],
            b_newImages =
              [\<lparr>id_img = ''82mvyr'', image_img = ''blob:a'', prediction = None, error = None,
          isLoading = True\<rparr>],
            b_promises = [None]\<rparr>]\<rparr>"
proof -
  let ?a = "\<lparr>id_img = ''82mvyr'', image_img = ''blob:a'', prediction = None, error = None,
          isLoading = True\<rparr>"
  let ?f = "\<lparr>objectURL = ''blob:a'', dataURL = ''data:a''\<rparr>"
  let ?t = "\<lparr>images = [?a],
             batches = [\<lparr>b_files = [?f], b_newImages = [?a], b_promises = [None]\<rparr>]\<rparr>"
  let ?u' = "\<lparr>images = [],
              batches = [\<lparr>b_files = [?f], b_newImages = [?a], b_promises = [None]\<rparr>]\<rparr>"
  let ?post = "(Response \<lparr>data_success = True, data_prediction = Some ''cat'', data_error = None\<rparr>)"
  have h1: "run init [Upload [(?f, ''0.4fzyo82mvyr'')]] = Inr ?t"
    by (simp add: init_def newImages_def random_id_def substring_def)
  from run_total [OF wf_init, of "[Upload [(?f, ''0.4fzyo82mvyr'')], Settle 0 0 ''0.i'' ?post]"]
  obtain t' where h3: "step (Settle 0 0 ''0.i'' ?post) ?t = Inr t'"
    using h1 by (auto simp del: step.simps split: sum.splits)
  have h4: "step (Remove ''82mvyr'') ?t = Inr ?u' \<and>
      (\<forall>b j r post. Remove ''82mvyr'' \<noteq> Settle b j r post)"
    by (simp add: removeImage_def)
  have h5: "(0::nat) < length (batches ?t) \<and> wf_batch (batches ?t ! 0) \<and>
    0 < length (b_promises (batches ?t ! 0)) \<and> b_promises (batches ?t ! 0) ! 0 = None \<and>
    (\<forall>k<length (b_promises (batches ?t ! 0)). k \<noteq> 0 \<longrightarrow> b_promises (batches ?t ! 0) ! k \<noteq> None) \<and>
    distinct (map id_img (images ?t)) \<and> step (Settle 0 0 ''0.i'' ?post) ?t = Inr t'"
    using h3 by (simp add: wf_batch_def del: step.simps)
  note T = loading_is_exclusive_and_never_returns
    [of "[Upload [(?f, ''0.4fzyo82mvyr'')]]" ?t "[(?f, ''0.4fzyo82mvyr'')]" 0 0 "''0.i''" ?post
        ?t t' "Remove ''82mvyr''" ?t ?u']
  from T [THEN conjunct2, THEN conjunct2, THEN conjunct1, THEN mp, OF h3, THEN conjunct1]
  have len: "length (images t') = length (images ?t)" .
  from T [THEN conjunct2, THEN conjunct2, THEN conjunct2, THEN conjunct2, THEN mp, OF h5] have "\<forall>p<length (images ?t).
         id_img (images ?t ! p) \<in> id_img ` set (b_newImages (batches ?t ! 0)) \<longrightarrow>
         \<not> isLoading (images t' ! p)" .
  then have "\<not> isLoading (images t' ! 0)" by simp
  with len h1 h3 h4 show ?thesis by (auto simp del: step.simps run.simps)
qed

end
